theory Spec2Isabelle
  imports Main "HOL-Library.AList" "HOL-Library.Multiset"
begin

section \<open>Data model (src/types/circuit.ts)\<close>

text \<open>
  The gate kinds of \<^verbatim>\<open>GateType\<close>. The evaluator also has a case for the string
  \<^verbatim>\<open>'BUTTON'\<close> (which the side menu offers as a tool) and a \<^verbatim>\<open>default\<close> case; the
  constructor \<open>OTHER\<close> stands for every kind string the \<^verbatim>\<open>switch\<close> does not list.
\<close>

datatype GateType = AND | OR | NOT | INPUT | OUTPUT | LED | MODULE | PINBAR | BUTTON | OTHER

datatype PinBarMode = ModeInput | ModeOutput

text \<open>
  \<^verbatim>\<open>CircuitNode\<close>, \<^verbatim>\<open>Connection\<close> and \<^verbatim>\<open>ModuleDefinition\<close>. Only the fields the evaluator
  reads are kept (position, label, LED styling, pin names and rotation are never read by
  it). Optional fields are options. Pin counts and pin indices are natural numbers.
  The field names carry a prefix because the three interfaces share names (\<^verbatim>\<open>id\<close>,
  \<^verbatim>\<open>inputCount\<close>, ...).
\<close>

record CircuitNode =
  n_id :: string
  n_type :: GateType
  n_inputCount :: nat
  n_outputCount :: nat
  n_inputValue :: "bool option"
  n_moduleId :: "string option"
  n_pinBarMode :: "PinBarMode option"
  n_pinBarValues :: "bool list option"

record Connection =
  c_id :: string
  fromNodeId :: string
  fromPinIndex :: nat
  toNodeId :: string
  toPinIndex :: nat

record ModuleDefinition =
  m_id :: string
  m_name :: string
  m_nodes :: "CircuitNode list"
  m_connections :: "Connection list"
  inputNodeIds :: "string list"
  outputNodeIds :: "string list"
  m_inputCount :: nat
  m_outputCount :: nat

text \<open>
  \<^verbatim>\<open>Record<string, boolean[]>\<close> and the other dictionaries of the source are plain objects.
  A map holds the own properties of such an object. Reading a key that is no own property
  does not always give \<^verbatim>\<open>undefined\<close>: when the key is the name of a property that every
  object inherits from \<^verbatim>\<open>Object.prototype\<close>, the read gives that inherited value, which is
  truthy, is neither a \<^verbatim>\<open>Set\<close> nor an array (it has no \<^verbatim>\<open>add\<close> and no \<^verbatim>\<open>push\<close>), is not
  iterable, and has no property at a numeric index. \<open>inheritedName\<close> lists these names.
  An assignment \<^verbatim>\<open>obj[k] = v\<close> is modelled as storing an own property for every key;
  for the one key \<^verbatim>\<open>__proto__\<close>, where JavaScript replaces the prototype of the object
  instead, the model does not follow the source.
\<close>

type_synonym outputs = "string \<rightharpoonup> bool list"

definition inheritedName :: "string \<Rightarrow> bool" where
  "inheritedName k \<longleftrightarrow>
     k \<in> set [''constructor'', ''__defineGetter__'', ''__defineSetter__'', ''hasOwnProperty'',
              ''__lookupGetter__'', ''__lookupSetter__'', ''isPrototypeOf'',
              ''propertyIsEnumerable'', ''toString'', ''valueOf'', ''__proto__'',
              ''toLocaleString'']"

text \<open>
  \<^verbatim>\<open>k in obj\<close>: the read \<^verbatim>\<open>obj[k]\<close> gives an own or an inherited property. Such a read differs
  from \<^verbatim>\<open>undefined\<close>, and is truthy where the own properties are sets or arrays.
\<close>

definition hasProperty :: "(string \<rightharpoonup> 'a) \<Rightarrow> string \<Rightarrow> bool" where
  "hasProperty obj k \<longleftrightarrow> k \<in> dom obj \<or> inheritedName k"

text \<open>
  A call that does not return throws: \<open>TypeError\<close> where the source calls a method that
  an inherited value does not have or iterates over one, \<open>RangeError\<close> where the nesting of
  calls exceeds the call stack. Results are sums, the error on the left.
\<close>

datatype jsError = TypeError | RangeError

section \<open>Graph indexer (evaluateCircuit, lines 11-23)\<close>

text \<open>A JavaScript \<^verbatim>\<open>Set\<close> of strings is a duplicate-free list in insertion order.\<close>

definition setAdd :: "string \<Rightarrow> string list \<Rightarrow> string list" where
  "setAdd x xs = (if x \<in> set xs then xs else xs @ [x])"

definition initEdges :: "CircuitNode list \<Rightarrow> (string \<rightharpoonup> string list)" where
  "initEdges nodes = fold (\<lambda>n m. m(n_id n \<mapsto> [])) nodes Map.empty"

text \<open>
  Lines 18-23, one connection. The test \<^verbatim>\<open>outEdges[from] && inEdges[to]\<close> also succeeds for
  an endpoint that is no node but names an inherited property; the call of \<^verbatim>\<open>add\<close> on the
  inherited value then throws. The pair is \<open>(outEdges, inEdges)\<close>.
\<close>

definition addEdge ::
  "Connection \<Rightarrow> (string \<rightharpoonup> string list) \<times> (string \<rightharpoonup> string list)
     \<Rightarrow> jsError + (string \<rightharpoonup> string list) \<times> (string \<rightharpoonup> string list)" where
  "addEdge conn E =
     (if hasProperty (fst E) (fromNodeId conn) \<and> hasProperty (snd E) (toNodeId conn) then
        (case (fst E (fromNodeId conn), snd E (toNodeId conn)) of
           (Some os, Some is) \<Rightarrow>
             Inr ((fst E)(fromNodeId conn \<mapsto> setAdd (toNodeId conn) os),
                  (snd E)(toNodeId conn \<mapsto> setAdd (fromNodeId conn) is))
         | _ \<Rightarrow> Inl TypeError)
      else Inr E)"

fun addEdges ::
  "Connection list \<Rightarrow> (string \<rightharpoonup> string list) \<times> (string \<rightharpoonup> string list)
     \<Rightarrow> jsError + (string \<rightharpoonup> string list) \<times> (string \<rightharpoonup> string list)" where
  "addEdges [] E = Inr E"
| "addEdges (conn # rest) E =
     (case addEdge conn E of Inl e \<Rightarrow> Inl e | Inr E' \<Rightarrow> addEdges rest E')"

text \<open>Lines 11-23: the pair \<open>(outEdges, inEdges)\<close>.\<close>

definition buildEdges ::
  "CircuitNode list \<Rightarrow> Connection list
     \<Rightarrow> jsError + (string \<rightharpoonup> string list) \<times> (string \<rightharpoonup> string list)" where
  "buildEdges nodes connections = addEdges connections (initEdges nodes, initEdges nodes)"

section \<open>Topological sequencer (evaluateCircuit, lines 25-49)\<close>

text \<open>
  \<^verbatim>\<open>inDegree\<close> is an association list in insertion order; \<open>map_of\<close> reads it and
  \<open>AList.update\<close> assigns a key in place (or appends a new key).
\<close>

definition initInDegree ::
  "CircuitNode list \<Rightarrow> (string \<rightharpoonup> string list) \<Rightarrow> (string \<times> int) list" where
  "initInDegree nodes inEdges =
     fold (\<lambda>n deg. AList.update (n_id n)
             (case inEdges (n_id n) of Some s \<Rightarrow> int (length s) | None \<Rightarrow> 0) deg) nodes []"

definition initQueue :: "CircuitNode list \<Rightarrow> (string \<times> int) list \<Rightarrow> string list" where
  "initQueue nodes deg = map n_id (filter (\<lambda>n. map_of deg (n_id n) = Some 0) nodes)"

text \<open>
  The inner \<^verbatim>\<open>for (const next of outEdges[id] || [])\<close> loop: decrement the in-degree
  of each successor and enqueue it when the in-degree becomes zero. Every successor
  recorded by the indexer is a node identifier and so has an in-degree; for a key
  without one the loop would store \<^verbatim>\<open>NaN\<close>, which is never zero, so nothing is enqueued.
\<close>

fun relax ::
  "string list \<Rightarrow> (string \<times> int) list \<times> string list \<Rightarrow> (string \<times> int) list \<times> string list" where
  "relax [] st = st"
| "relax (nx # rest) (deg, queue) =
     (case map_of deg nx of
        None \<Rightarrow> relax rest (deg, queue)
      | Some d \<Rightarrow>
          relax rest (AList.update nx (d - 1) deg,
                      if d - 1 = 0 then queue @ [nx] else queue))"

definition succs :: "(string \<rightharpoonup> string list) \<Rightarrow> string \<Rightarrow> string list" where
  "succs outEdges x = (case outEdges x of Some s \<Rightarrow> s | None \<Rightarrow> [])"

definition positives :: "(string \<times> int) list \<Rightarrow> nat" where
  "positives deg = length (filter (\<lambda>p. 0 < snd p) deg)"

lemma positives_update:
  "map_of deg k = Some d \<Longrightarrow>
   positives (AList.update k (d - 1) deg) + (if d = 1 then 1 else 0) = positives deg"
  by (induction deg) (auto simp: positives_def)

lemma relax_measure:
  "relax xs (deg, queue) = (deg', queue') \<Longrightarrow>
   length queue' + positives deg' = length queue + positives deg"
proof (induction xs arbitrary: deg queue)
  case Nil
  then show ?case by simp
next
  case (Cons nx rest)
  show ?case
  proof (cases "map_of deg nx")
    case None
    with Cons show ?thesis by simp
  next
    case (Some d)
    from Cons.prems Some
    have "relax rest (AList.update nx (d - 1) deg,
                      if d - 1 = 0 then queue @ [nx] else queue) = (deg', queue')"
      by simp
    from Cons.IH [OF this] positives_update [OF Some]
    show ?thesis by (auto split: if_splits)
  qed
qed

text \<open>The \<^verbatim>\<open>while (queue.length > 0)\<close> loop of Kahn's algorithm; it returns \<^verbatim>\<open>sorted\<close>.\<close>

function kahnLoop ::
  "(string \<rightharpoonup> string list) \<Rightarrow> (string \<times> int) list \<Rightarrow> string list \<Rightarrow> string list
     \<Rightarrow> string list" where
  "kahnLoop outEdges deg [] sortedIds = sortedIds"
| "kahnLoop outEdges deg (x # queue) sortedIds =
     (case relax (succs outEdges x) (deg, queue) of
        (deg', queue') \<Rightarrow> kahnLoop outEdges deg' queue' (sortedIds @ [x]))"
  by pat_completeness auto
termination
proof (relation "measure (\<lambda>(outEdges, deg, queue, sortedIds). length queue + positives deg)")
qed (auto dest!: relax_measure [OF sym])

text \<open>
  Lines 42-49: every node identifier that \<^verbatim>\<open>sorted\<close> does not include yet is recorded as
  a cycle node and appended to \<^verbatim>\<open>sorted\<close>. The state is \<open>(sortedIds, cycleNodeIds)\<close>.
\<close>

definition collectCycle ::
  "CircuitNode list \<Rightarrow> string list \<times> string list \<Rightarrow> string list \<times> string list" where
  "collectCycle nodes st =
     fold (\<lambda>n (sortedIds, cyc).
             if n_id n \<notin> set sortedIds then (sortedIds @ [n_id n], cyc @ [n_id n])
             else (sortedIds, cyc)) nodes st"

text \<open>Lines 11-49 together: the evaluation sequence and the cycle node identifiers.\<close>

definition topoOrder ::
  "CircuitNode list \<Rightarrow> Connection list \<Rightarrow> jsError + string list \<times> string list" where
  "topoOrder nodes connections =
     (case buildEdges nodes connections of
        Inl e \<Rightarrow> Inl e
      | Inr (outEdges, inEdges) \<Rightarrow>
          (let deg = initInDegree nodes inEdges
           in Inr (collectCycle nodes (kahnLoop outEdges deg (initQueue nodes deg) [], []))))"

section \<open>Node semantics (evaluateNode, lines 64-114 and 191-193)\<close>

text \<open>\<^verbatim>\<open>xs[i] ?? false\<close>: an index past the end reads \<^verbatim>\<open>undefined\<close>.\<close>

definition nthOrFalse :: "bool list \<Rightarrow> nat \<Rightarrow> bool" where
  "nthOrFalse xs i = (if i < length xs then xs ! i else False)"

text \<open>
  \<^verbatim>\<open>(m[k] || [])[i] ?? false\<close>. An inherited value read in place of a missing entry has
  no property at a numeric index, so that the result is \<^verbatim>\<open>false\<close> as for \<^verbatim>\<open>undefined\<close>.
\<close>

definition readPin :: "outputs \<Rightarrow> string \<Rightarrow> nat \<Rightarrow> bool" where
  "readPin m k i = nthOrFalse (case m k of Some v \<Rightarrow> v | None \<Rightarrow> []) i"

definition findNode :: "CircuitNode list \<Rightarrow> string \<Rightarrow> CircuitNode option" where
  "findNode nodes k = find (\<lambda>n. n_id n = k) nodes"

definition findConn :: "Connection list \<Rightarrow> string \<Rightarrow> nat \<Rightarrow> Connection option" where
  "findConn connections k i = find (\<lambda>c. toNodeId c = k \<and> toPinIndex c = i) connections"

text \<open>Lines 71-81: one value per declared input pin.\<close>

definition inputValues ::
  "Connection list \<Rightarrow> string set \<Rightarrow> outputs \<Rightarrow> outputs \<Rightarrow> string \<Rightarrow> nat \<Rightarrow> bool list" where
  "inputValues connections cycleSet frozenOutputs source nodeId inputCount =
     map (\<lambda>i. case findConn connections nodeId i of
                 Some conn \<Rightarrow>
                   readPin (if fromNodeId conn \<in> cycleSet then frozenOutputs else source)
                     (fromNodeId conn) (fromPinIndex conn)
               | None \<Rightarrow> False)
       [0..<inputCount]"

definition pinBarModeOf :: "CircuitNode \<Rightarrow> PinBarMode" where
  "pinBarModeOf n = (case n_pinBarMode n of Some m \<Rightarrow> m | None \<Rightarrow> ModeInput)"

section \<open>Module expander (evaluateNode, lines 115-190)\<close>

definition findModule :: "ModuleDefinition list \<Rightarrow> string option \<Rightarrow> ModuleDefinition option" where
  "findModule modules mid =
     (case mid of None \<Rightarrow> None | Some k \<Rightarrow> find (\<lambda>m. m_id m = k) modules)"

text \<open>Lines 119-134; the state is \<open>(moduleInputValues, inputIdx)\<close>.\<close>

fun gatherInputs ::
  "CircuitNode list \<Rightarrow> bool list \<Rightarrow> string list \<Rightarrow> bool list \<times> nat \<Rightarrow> bool list \<times> nat" where
  "gatherInputs ns iv [] st = st"
| "gatherInputs ns iv (inId # rest) (miv, inputIdx) =
     (case findNode ns inId of
        None \<Rightarrow> gatherInputs ns iv rest (miv, inputIdx)
      | Some inNode \<Rightarrow>
          if n_type inNode = INPUT then
            gatherInputs ns iv rest (miv @ [nthOrFalse iv inputIdx], inputIdx + 1)
          else if n_type inNode = PINBAR then
            gatherInputs ns iv rest
              (miv @ map (nthOrFalse iv) [inputIdx..<inputIdx + n_outputCount inNode],
               inputIdx + n_outputCount inNode)
          else gatherInputs ns iv rest (miv, inputIdx))"

text \<open>\<^verbatim>\<open>Array.prototype.indexOf\<close>, with \<open>None\<close> for \<^verbatim>\<open>-1\<close>.\<close>

definition indexOf :: "string list \<Rightarrow> string \<Rightarrow> nat option" where
  "indexOf xs x = (if x \<in> set xs then Some (length (takeWhile (\<lambda>y. y \<noteq> x) xs)) else None)"

text \<open>Lines 141-146 and 153-158.\<close>

definition actualIdx :: "ModuleDefinition \<Rightarrow> nat \<Rightarrow> nat" where
  "actualIdx moduleDef idx =
     sum_list (map (\<lambda>k. case findNode (m_nodes moduleDef) (inputNodeIds moduleDef ! k) of
                          Some prevNode \<Rightarrow>
                            if n_type prevNode = PINBAR then n_outputCount prevNode else 1
                        | None \<Rightarrow> 1)
                 [0..<idx])"

text \<open>Lines 136-164: the callback of \<^verbatim>\<open>moduleDef.nodes.map\<close>.\<close>

definition internalNode :: "ModuleDefinition \<Rightarrow> bool list \<Rightarrow> CircuitNode \<Rightarrow> CircuitNode" where
  "internalNode moduleDef miv n =
     (if n_type n = INPUT \<and> indexOf (inputNodeIds moduleDef) (n_id n) \<noteq> None then
        n\<lparr>n_inputValue :=
            Some (nthOrFalse miv
                    (actualIdx moduleDef (the (indexOf (inputNodeIds moduleDef) (n_id n)))))\<rparr>
      else if n_type n = PINBAR \<and> pinBarModeOf n = ModeInput
              \<and> indexOf (inputNodeIds moduleDef) (n_id n) \<noteq> None then
        n\<lparr>n_pinBarValues :=
            Some (map (\<lambda>pi. nthOrFalse miv
                         (actualIdx moduleDef (the (indexOf (inputNodeIds moduleDef) (n_id n)))
                            + pi))
                    [0..<n_outputCount n])\<rparr>
      else n)"

definition internalNodes :: "ModuleDefinition \<Rightarrow> bool list \<Rightarrow> CircuitNode list" where
  "internalNodes moduleDef iv =
     map (internalNode moduleDef
            (fst (gatherInputs (m_nodes moduleDef) iv (inputNodeIds moduleDef) ([], 0))))
       (m_nodes moduleDef)"

text \<open>Lines 168-184: the external output vector.\<close>

definition moduleResult :: "ModuleDefinition \<Rightarrow> outputs \<Rightarrow> bool list" where
  "moduleResult moduleDef internalOutputs =
     concat (map (\<lambda>outId.
        case findNode (m_nodes moduleDef) outId of
          Some outNode \<Rightarrow>
            if n_type outNode = PINBAR \<and> n_pinBarMode outNode = Some ModeOutput then
              map (\<lambda>pi. case findConn (m_connections moduleDef) outId pi of
                          Some conn \<Rightarrow>
                            readPin internalOutputs (fromNodeId conn) (fromPinIndex conn)
                        | None \<Rightarrow> False)
                [0..<n_inputCount outNode]
            else [readPin internalOutputs outId 0]
        | None \<Rightarrow> [readPin internalOutputs outId 0])
       (outputNodeIds moduleDef))"

text \<open>
  The \<^verbatim>\<open>switch (node.type)\<close>. The recursive call of the evaluator on a module's
  internal circuit is the parameter \<open>rec\<close>; an error that it throws is thrown on.
\<close>

definition nodeOutput ::
  "(CircuitNode list \<Rightarrow> Connection list \<Rightarrow> jsError + outputs) \<Rightarrow> ModuleDefinition list
     \<Rightarrow> CircuitNode \<Rightarrow> bool list \<Rightarrow> jsError + bool list" where
  "nodeOutput rec modules node iv =
     (case n_type node of
        INPUT \<Rightarrow> Inr [case n_inputValue node of Some b \<Rightarrow> b | None \<Rightarrow> False]
      | BUTTON \<Rightarrow> Inr [case n_inputValue node of Some b \<Rightarrow> b | None \<Rightarrow> False]
      | AND \<Rightarrow> Inr [2 \<le> length iv \<and> nthOrFalse iv 0 \<and> nthOrFalse iv 1]
      | OR \<Rightarrow> Inr [2 \<le> length iv \<and> (nthOrFalse iv 0 \<or> nthOrFalse iv 1)]
      | NOT \<Rightarrow> Inr [\<not> nthOrFalse iv 0]
      | OUTPUT \<Rightarrow> Inr [nthOrFalse iv 0]
      | LED \<Rightarrow> Inr [nthOrFalse iv 0]
      | PINBAR \<Rightarrow>
          (if pinBarModeOf node = ModeInput then
             Inr (map (nthOrFalse (case n_pinBarValues node of Some vs \<Rightarrow> vs | None \<Rightarrow> []))
                    [0..<n_outputCount node])
           else Inr (take (n_inputCount node) iv))
      | MODULE \<Rightarrow>
          (case findModule modules (n_moduleId node) of
             Some moduleDef \<Rightarrow>
               (case rec (internalNodes moduleDef iv) (m_connections moduleDef) of
                  Inr internalOutputs \<Rightarrow> Inr (moduleResult moduleDef internalOutputs)
                | Inl e \<Rightarrow> Inl e)
           | None \<Rightarrow> Inr (replicate (n_outputCount node) False))
      | OTHER \<Rightarrow> Inr [False])"

text \<open>
  \<^verbatim>\<open>evaluateNode(nodeId, isCyclePass)\<close>: the closure's captured variables are
  parameters, and the updated \<^verbatim>\<open>outputs\<close> is returned.
\<close>

definition evaluateNode ::
  "(CircuitNode list \<Rightarrow> Connection list \<Rightarrow> jsError + outputs) \<Rightarrow> ModuleDefinition list
     \<Rightarrow> CircuitNode list \<Rightarrow> Connection list \<Rightarrow> string set \<Rightarrow> outputs
     \<Rightarrow> string \<Rightarrow> bool \<Rightarrow> outputs \<Rightarrow> jsError + outputs" where
  "evaluateNode rec modules nodes connections cycleSet frozenOutputs nodeId isCyclePass outputs =
     (case findNode nodes nodeId of
        None \<Rightarrow> Inr outputs
      | Some node \<Rightarrow>
          (case nodeOutput rec modules node
                  (inputValues connections cycleSet frozenOutputs
                     (if isCyclePass then frozenOutputs else outputs) nodeId (n_inputCount node)) of
             Inr v \<Rightarrow> Inr (outputs(nodeId \<mapsto> v))
           | Inl e \<Rightarrow> Inl e))"

section \<open>The two passes (evaluateCircuit, lines 51-62 and 196-215)\<close>

text \<open>
  Lines 51-59: seed the cycle nodes from \<^verbatim>\<open>previousOutputs\<close>. For a cycle node whose
  identifier is no entry of \<^verbatim>\<open>previousOutputs\<close> but names an inherited property, the test
  of line 55 succeeds and the spread of line 56 throws, the inherited value not being
  iterable.
\<close>

definition seedOutputs :: "outputs option \<Rightarrow> string list \<Rightarrow> jsError + outputs" where
  "seedOutputs previousOutputs cycleNodeIds =
     (case previousOutputs of
        None \<Rightarrow> Inr Map.empty
      | Some prev \<Rightarrow>
          if list_ex (\<lambda>nodeId. prev nodeId = None \<and> inheritedName nodeId) cycleNodeIds
          then Inl TypeError
          else Inr (fold (\<lambda>nodeId out. case prev nodeId of Some v \<Rightarrow> out(nodeId \<mapsto> v)
                                                        | None \<Rightarrow> out)
                      cycleNodeIds Map.empty))"

text \<open>Lines 196-201; \<open>ev\<close> is \<^verbatim>\<open>evaluateNode\<close> with its captured variables fixed.\<close>

fun pass1 ::
  "(string \<Rightarrow> bool \<Rightarrow> outputs \<Rightarrow> jsError + outputs) \<Rightarrow> string set \<Rightarrow> string list \<Rightarrow> outputs
     \<Rightarrow> jsError + outputs" where
  "pass1 ev cycleSet [] outputs = Inr outputs"
| "pass1 ev cycleSet (nodeId # rest) outputs =
     (if nodeId \<notin> cycleSet then
        (case ev nodeId False outputs of
           Inr outputs' \<Rightarrow> pass1 ev cycleSet rest outputs'
         | Inl e \<Rightarrow> Inl e)
      else pass1 ev cycleSet rest outputs)"

text \<open>
  Lines 203-208. Where \<^verbatim>\<open>outputs[nodeId]\<close> is an inherited value, the assignment stores in
  \<^verbatim>\<open>frozenOutputs\<close> the value that a read of \<^verbatim>\<open>frozenOutputs[nodeId]\<close> gives without it.
\<close>

definition refreshFrozen :: "string set \<Rightarrow> string list \<Rightarrow> outputs \<Rightarrow> outputs \<Rightarrow> outputs" where
  "refreshFrozen cycleSet sortedIds outputs frozenOutputs =
     fold (\<lambda>nodeId fr.
             if nodeId \<notin> cycleSet then
               (case outputs nodeId of Some v \<Rightarrow> fr(nodeId \<mapsto> v) | None \<Rightarrow> fr)
             else fr)
       sortedIds frozenOutputs"

text \<open>Lines 210-213.\<close>

fun pass2 ::
  "(string \<Rightarrow> bool \<Rightarrow> outputs \<Rightarrow> jsError + outputs) \<Rightarrow> string list \<Rightarrow> outputs
     \<Rightarrow> jsError + outputs" where
  "pass2 ev [] outputs = Inr outputs"
| "pass2 ev (nodeId # rest) outputs =
     (case ev nodeId True outputs of
        Inr outputs' \<Rightarrow> pass2 ev rest outputs'
      | Inl e \<Rightarrow> Inl e)"

text \<open>
  The body of \<^verbatim>\<open>evaluateCircuit\<close> after the sequencer, for a given evaluation sequence
  and list of cycle nodes.
\<close>

definition runPasses ::
  "(CircuitNode list \<Rightarrow> Connection list \<Rightarrow> jsError + outputs) \<Rightarrow> CircuitNode list
     \<Rightarrow> Connection list \<Rightarrow> ModuleDefinition list \<Rightarrow> outputs option
     \<Rightarrow> string list \<Rightarrow> string list \<Rightarrow> jsError + outputs" where
  "runPasses rec nodes connections modules previousOutputs sortedIds cycleNodeIds =
     (case seedOutputs previousOutputs cycleNodeIds of
        Inl e \<Rightarrow> Inl e
      | Inr seeded \<Rightarrow>
          (case pass1 (evaluateNode rec modules nodes connections (set cycleNodeIds) seeded)
                  (set cycleNodeIds) sortedIds seeded of
             Inl e \<Rightarrow> Inl e
           | Inr outputs1 \<Rightarrow>
               pass2 (evaluateNode rec modules nodes connections (set cycleNodeIds)
                        (refreshFrozen (set cycleNodeIds) sortedIds outputs1 seeded))
                 cycleNodeIds outputs1))"

definition evaluateBody ::
  "(CircuitNode list \<Rightarrow> Connection list \<Rightarrow> jsError + outputs) \<Rightarrow> CircuitNode list
     \<Rightarrow> Connection list \<Rightarrow> ModuleDefinition list \<Rightarrow> outputs option \<Rightarrow> jsError + outputs" where
  "evaluateBody rec nodes connections modules previousOutputs =
     (case topoOrder nodes connections of
        Inl e \<Rightarrow> Inl e
      | Inr (sortedIds, cycleNodeIds) \<Rightarrow>
          runPasses rec nodes connections modules previousOutputs sortedIds cycleNodeIds)"

text \<open>
  \<^verbatim>\<open>evaluateCircuit\<close>. The first argument is the number of nested calls of
  \<^verbatim>\<open>evaluateCircuit\<close> that the call stack of the host has room for; a call beyond it throws
  \<open>RangeError\<close>, which is how a module definition that contains itself shows up.
  The recursive call passes no \<^verbatim>\<open>previousOutputs\<close>.
\<close>

fun evaluateCircuit ::
  "nat \<Rightarrow> CircuitNode list \<Rightarrow> Connection list \<Rightarrow> ModuleDefinition list \<Rightarrow> outputs option
     \<Rightarrow> jsError + outputs" where
  "evaluateCircuit 0 nodes connections modules previousOutputs = Inl RangeError"
| "evaluateCircuit (Suc depth) nodes connections modules previousOutputs =
     evaluateBody (\<lambda>ns cs. evaluateCircuit depth ns cs modules None)
       nodes connections modules previousOutputs"

section \<open>Cycle utilities: wouldCreateCycle (lines 257-278)\<close>

text \<open>
  \<^verbatim>\<open>adj\<close> is an object from node identifiers to arrays of successors, kept as an
  association list. A key without an entry reads as \<^verbatim>\<open>undefined\<close>, for which both the
  construction and the search substitute the empty array, unless it names an inherited
  property: then the read is truthy, line 265 assigns nothing, and the \<^verbatim>\<open>push\<close> of line 266
  and the iteration of line 275 throw.
\<close>

definition adjLookup :: "(string \<times> string list) list \<Rightarrow> string \<Rightarrow> string list" where
  "adjLookup adj x = (case map_of adj x of Some l \<Rightarrow> l | None \<Rightarrow> [])"

definition adjPush ::
  "Connection \<Rightarrow> (string \<times> string list) list \<Rightarrow> jsError + (string \<times> string list) list" where
  "adjPush conn adj =
     (if map_of adj (fromNodeId conn) = None \<and> inheritedName (fromNodeId conn) then Inl TypeError
      else Inr (AList.update (fromNodeId conn)
                  (adjLookup adj (fromNodeId conn) @ [toNodeId conn]) adj))"

fun adjPushAll ::
  "Connection list \<Rightarrow> (string \<times> string list) list \<Rightarrow> jsError + (string \<times> string list) list" where
  "adjPushAll [] adj = Inr adj"
| "adjPushAll (conn # rest) adj =
     (case adjPush conn adj of Inl e \<Rightarrow> Inl e | Inr adj' \<Rightarrow> adjPushAll rest adj')"

definition buildAdj :: "Connection list \<Rightarrow> jsError + (string \<times> string list) list" where
  "buildAdj connections = adjPushAll connections []"

text \<open>All successors recorded in \<open>adj\<close>; the search never meets any other new node.\<close>

definition adjTargets :: "(string \<times> string list) list \<Rightarrow> string set" where
  "adjTargets adj = (\<Union>p\<in>set adj. set (snd p))"

lemma adjLookup_targets: "set (adjLookup adj x) \<subseteq> adjTargets adj"
proof (cases "map_of adj x")
  case None
  then show ?thesis by (simp add: adjLookup_def)
next
  case (Some l)
  then have "(x, l) \<in> set adj" by (rule map_of_SomeD)
  then have "set (snd (x, l)) \<subseteq> adjTargets adj"
    unfolding adjTargets_def by blast
  with Some show ?thesis by (simp add: adjLookup_def)
qed

lemma finite_adjTargets [simp]: "finite (adjTargets adj)"
  unfolding adjTargets_def by simp

text \<open>
  The \<^verbatim>\<open>while (q.length > 0)\<close> loop: \<open>Inr True\<close> is the early \<^verbatim>\<open>return true\<close>, \<open>Inr False\<close>
  the \<^verbatim>\<open>return false\<close> after the loop.
\<close>

function bfsLoop ::
  "(string \<times> string list) list \<Rightarrow> string \<Rightarrow> string set \<Rightarrow> string list \<Rightarrow> jsError + bool" where
  "bfsLoop adj fromId visited [] = Inr False"
| "bfsLoop adj fromId visited (current # q) =
     (if current = fromId then Inr True
      else if current \<in> visited then bfsLoop adj fromId visited q
      else if map_of adj current = None \<and> inheritedName current then Inl TypeError
      else bfsLoop adj fromId (insert current visited) (q @ adjLookup adj current))"
  by pat_completeness auto
termination
proof (relation "inv_image (less_than <*lex*> less_than)
         (\<lambda>(adj, fromId, visited, q). (card ((set q \<union> adjTargets adj) - visited), length q))")
  show "wf (inv_image (less_than <*lex*> less_than)
         (\<lambda>(adj, fromId, visited, q). (card ((set q \<union> adjTargets adj) - visited), length q)))"
    by (intro wf_inv_image wf_lex_prod wf_less_than)
next
  fix adj :: "(string \<times> string list) list" and fromId :: string
    and visited :: "string set" and current :: string and q :: "string list"
  assume "current \<in> visited"
  then have "(set (current # q) \<union> adjTargets adj) - visited = (set q \<union> adjTargets adj) - visited"
    by auto
  then show "((adj, fromId, visited, q), (adj, fromId, visited, current # q))
        \<in> inv_image (less_than <*lex*> less_than)
         (\<lambda>(adj, fromId, visited, q). (card ((set q \<union> adjTargets adj) - visited), length q))"
    by simp
next
  fix adj :: "(string \<times> string list) list" and fromId :: string
    and visited :: "string set" and current :: string and q :: "string list"
  assume "current \<notin> visited"
  then have "(set (q @ adjLookup adj current) \<union> adjTargets adj) - insert current visited
               \<subset> (set (current # q) \<union> adjTargets adj) - visited"
    using adjLookup_targets [of adj current] by auto
  moreover have "finite ((set (current # q) \<union> adjTargets adj) - visited)"
    by simp
  ultimately have "card ((set (q @ adjLookup adj current) \<union> adjTargets adj) - insert current visited)
               < card ((set (current # q) \<union> adjTargets adj) - visited)"
    by (rule psubset_card_mono [rotated])
  then show "((adj, fromId, insert current visited, q @ adjLookup adj current),
          (adj, fromId, visited, current # q))
        \<in> inv_image (less_than <*lex*> less_than)
         (\<lambda>(adj, fromId, visited, q). (card ((set q \<union> adjTargets adj) - visited), length q))"
    by simp
qed

definition wouldCreateCycle :: "Connection list \<Rightarrow> string \<Rightarrow> string \<Rightarrow> jsError + bool" where
  "wouldCreateCycle connections fromId toId =
     (if fromId = toId then Inr True
      else (case buildAdj connections of
              Inl e \<Rightarrow> Inl e
            | Inr adj \<Rightarrow> bfsLoop adj fromId {} [toId]))"

section \<open>Cycle utilities: detectCycleConnections (lines 218-255)\<close>

text \<open>
  \<^verbatim>\<open>for (const id in inDegree)\<close> enumerates the keys of an object: first the keys that
  are array indices (canonical decimal numerals below \<open>2^32 - 1\<close>) in ascending numeric
  order, then all other keys in insertion order.
\<close>

definition isDigit :: "char \<Rightarrow> bool" where
  "isDigit c = (48 \<le> (of_char c :: nat) \<and> (of_char c :: nat) \<le> 57)"

definition decimalValue :: "string \<Rightarrow> nat" where
  "decimalValue s = foldl (\<lambda>acc c. 10 * acc + (of_char c - 48)) 0 s"

definition arrayIndex :: "string \<Rightarrow> nat option" where
  "arrayIndex s =
     (if s \<noteq> [] \<and> list_all isDigit s \<and> (s = ''0'' \<or> hd s \<noteq> CHR ''0'')
         \<and> decimalValue s < 2 ^ 32 - 1
      then Some (decimalValue s) else None)"

definition jsKeyOrder :: "string list \<Rightarrow> string list" where
  "jsKeyOrder ks =
     sort_key decimalValue (filter (\<lambda>k. arrayIndex k \<noteq> None) ks)
       @ filter (\<lambda>k. arrayIndex k = None) ks"

text \<open>Lines 225-228: every node gets in-degree 0 and an empty successor set.\<close>

definition detectInit ::
  "CircuitNode list \<Rightarrow> (string \<times> int) list \<times> (string \<rightharpoonup> string list)" where
  "detectInit nodes = (fold (\<lambda>n deg. AList.update (n_id n) 0 deg) nodes [], initEdges nodes)"

text \<open>
  Lines 229-234: the in-degree is incremented once per connection, while the successor
  is added to a set. The test of line 230 also succeeds for an endpoint that is no node
  but names an inherited property. For such a source the call of \<^verbatim>\<open>add\<close> throws. For such a
  target the increment stores \<^verbatim>\<open>NaN\<close>, which stays \<^verbatim>\<open>NaN\<close> under every later increment
  and decrement and never equals \<open>0\<close>: the target is read like an identifier without an
  in-degree from then on, and no entry is kept for it.
\<close>

definition detectAddConn ::
  "Connection \<Rightarrow> (string \<times> int) list \<times> (string \<rightharpoonup> string list)
     \<Rightarrow> jsError + (string \<times> int) list \<times> (string \<rightharpoonup> string list)" where
  "detectAddConn conn st =
     (if hasProperty (snd st) (fromNodeId conn) \<and> hasProperty (map_of (fst st)) (toNodeId conn)
      then
        (case snd st (fromNodeId conn) of
           None \<Rightarrow> Inl TypeError
         | Some s \<Rightarrow>
             Inr (case map_of (fst st) (toNodeId conn) of
                    Some d \<Rightarrow> AList.update (toNodeId conn) (d + 1) (fst st)
                  | None \<Rightarrow> fst st,
                  (snd st)(fromNodeId conn \<mapsto> setAdd (toNodeId conn) s)))
      else Inr st)"

fun detectAddConns ::
  "Connection list \<Rightarrow> (string \<times> int) list \<times> (string \<rightharpoonup> string list)
     \<Rightarrow> jsError + (string \<times> int) list \<times> (string \<rightharpoonup> string list)" where
  "detectAddConns [] st = Inr st"
| "detectAddConns (conn # rest) st =
     (case detectAddConn conn st of Inl e \<Rightarrow> Inl e | Inr st' \<Rightarrow> detectAddConns rest st')"

text \<open>
  Lines 236-254. The loop of lines 242-249 is the loop of \<open>kahnLoop\<close>, with the
  processed identifiers collected in a set.
\<close>

definition detectCycleConnections ::
  "CircuitNode list \<Rightarrow> Connection list \<Rightarrow> jsError + string list" where
  "detectCycleConnections nodes connections =
     (case detectAddConns connections (detectInit nodes) of
        Inl e \<Rightarrow> Inl e
      | Inr (inDegree, adj) \<Rightarrow>
          (let queue = filter (\<lambda>k. map_of inDegree k = Some 0) (jsKeyOrder (map fst inDegree));
               processed = set (kahnLoop adj inDegree queue []);
               cycleNodes = set (map n_id (filter (\<lambda>n. n_id n \<notin> processed) nodes))
           in Inr (map c_id (filter (\<lambda>c. fromNodeId c \<in> cycleNodes \<and> toNodeId c \<in> cycleNodes)
                               connections))))"

section \<open>The module expander as the specification describes it (section 4.4)\<close>

text \<open>
  These definitions follow the words of the specification, not the source; they are
  compared with the source's expander in claim C3. An input terminal is an INPUT node or a
  PINBAR in input mode. An INPUT terminal consumes one slot of the external input vector,
  a PINBAR terminal as many consecutive slots as its output-pin count.
\<close>

definition isInputTerminal :: "CircuitNode \<Rightarrow> bool" where
  "isInputTerminal n \<longleftrightarrow>
     n_type n = INPUT \<or> (n_type n = PINBAR \<and> pinBarModeOf n = ModeInput)"

definition terminalWidth :: "CircuitNode \<Rightarrow> nat" where
  "terminalWidth n = (if n_type n = INPUT then 1 else n_outputCount n)"

text \<open>
  Step 1: flatten the external input vector into the input terminals, in the order of
  \<^verbatim>\<open>inputNodeIds\<close>. The result pairs each terminal with its slice; missing inputs read
  \<open>False\<close>. The specification names no other kind of entry; here an entry that is no
  input terminal of the module gets no slice and consumes no slot.
\<close>

fun specSlices ::
  "CircuitNode list \<Rightarrow> bool list \<Rightarrow> nat \<Rightarrow> string list \<Rightarrow> (string \<times> bool list) list" where
  "specSlices ns ext off [] = []"
| "specSlices ns ext off (t # ts) =
     (case findNode ns t of
        Some n \<Rightarrow>
          if isInputTerminal n then
            (t, map (nthOrFalse ext) [off..<off + terminalWidth n])
              # specSlices ns ext (off + terminalWidth n) ts
          else specSlices ns ext off ts
      | None \<Rightarrow> specSlices ns ext off ts)"

text \<open>
  Step 2: the working copy of the internal node list, each input terminal's held value
  (INPUT) or held vector (PINBAR in input mode) overwritten by its slice.
\<close>

definition specInject :: "(string \<times> bool list) list \<Rightarrow> CircuitNode \<Rightarrow> CircuitNode" where
  "specInject slices n =
     (case map_of slices (n_id n) of
        None \<Rightarrow> n
      | Some sl \<Rightarrow>
          if n_type n = INPUT then n\<lparr>n_inputValue := Some (nthOrFalse sl 0)\<rparr>
          else if n_type n = PINBAR \<and> pinBarModeOf n = ModeInput then n\<lparr>n_pinBarValues := Some sl\<rparr>
          else n)"

definition specWorkingCopy :: "ModuleDefinition \<Rightarrow> bool list \<Rightarrow> CircuitNode list" where
  "specWorkingCopy m ext =
     map (specInject (specSlices (m_nodes m) ext 0 (inputNodeIds m))) (m_nodes m)"

text \<open>
  Step 4: what one entry of \<^verbatim>\<open>outputNodeIds\<close> contributes to the external output vector.
  An OUTPUT terminal contributes its single internal result bit. A PINBAR in output mode
  contributes, per input pin, the result of the source wired to that pin (or \<open>False\<close> when
  unconnected). The specification names no other kind of entry; none is given a
  contribution here.
\<close>

definition isOutputBar :: "CircuitNode \<Rightarrow> bool" where
  "isOutputBar n \<longleftrightarrow> n_type n = PINBAR \<and> n_pinBarMode n = Some ModeOutput"

definition tracedBits :: "ModuleDefinition \<Rightarrow> outputs \<Rightarrow> string \<Rightarrow> nat \<Rightarrow> bool list" where
  "tracedBits m r t width =
     map (\<lambda>pi. case findConn (m_connections m) t pi of
                 Some c \<Rightarrow> readPin r (fromNodeId c) (fromPinIndex c)
               | None \<Rightarrow> False)
       [0..<width]"

definition specOutputBits :: "ModuleDefinition \<Rightarrow> outputs \<Rightarrow> string \<Rightarrow> bool list" where
  "specOutputBits m r t =
     (case findNode (m_nodes m) t of
        None \<Rightarrow> []
      | Some n \<Rightarrow>
          if n_type n = OUTPUT then [readPin r t 0]
          else if isOutputBar n then tracedBits m r t (n_inputCount n)
          else [])"

text \<open>
  Step 3 and the whole expansion: the evaluator run on the working copy with the
  module's own connections and the same library, without previous outputs.
\<close>

definition standalone ::
  "nat \<Rightarrow> ModuleDefinition list \<Rightarrow> CircuitNode list \<Rightarrow> Connection list \<Rightarrow> jsError + outputs" where
  "standalone depth modules ns cs = evaluateCircuit depth ns cs modules None"

definition specModule ::
  "nat \<Rightarrow> ModuleDefinition list \<Rightarrow> ModuleDefinition \<Rightarrow> bool list \<Rightarrow> jsError + bool list" where
  "specModule depth modules m ext =
     (case standalone depth modules (specWorkingCopy m ext) (m_connections m) of
        Inl e \<Rightarrow> Inl e
      | Inr r \<Rightarrow> Inr (concat (map (specOutputBits m r) (outputNodeIds m))))"

text \<open>
  The data model of module definitions (section 3): \<^verbatim>\<open>inputNodeIds\<close> lists nodes of the
  module that serve as its input terminals, \<^verbatim>\<open>outputNodeIds\<close> nodes that serve as its
  output terminals. An output terminal is an OUTPUT node or a PINBAR in output mode.
\<close>

definition isOutputTerminal :: "CircuitNode \<Rightarrow> bool" where
  "isOutputTerminal n \<longleftrightarrow> n_type n = OUTPUT \<or> isOutputBar n"

definition namesInputTerminals :: "ModuleDefinition \<Rightarrow> bool" where
  "namesInputTerminals m \<longleftrightarrow>
     (\<forall>t\<in>set (inputNodeIds m). \<exists>n. findNode (m_nodes m) t = Some n \<and> isInputTerminal n)"

definition namesOutputTerminals :: "ModuleDefinition \<Rightarrow> bool" where
  "namesOutputTerminals m \<longleftrightarrow>
     (\<forall>t\<in>set (outputNodeIds m). \<exists>n. findNode (m_nodes m) t = Some n \<and> isOutputTerminal n)"

section \<open>Example circuits and the caller's loop\<close>

text \<open>Nodes without optional fields, INPUT terminals holding a value, and wires.\<close>

definition plainNode :: "string \<Rightarrow> GateType \<Rightarrow> nat \<Rightarrow> nat \<Rightarrow> CircuitNode" where
  "plainNode k t ic oc = \<lparr>n_id = k, n_type = t, n_inputCount = ic, n_outputCount = oc,
     n_inputValue = None, n_moduleId = None, n_pinBarMode = None, n_pinBarValues = None\<rparr>"

definition inputNode :: "string \<Rightarrow> bool \<Rightarrow> CircuitNode" where
  "inputNode k b = (plainNode k INPUT 0 1)\<lparr>n_inputValue := Some b\<rparr>"

definition wire :: "string \<Rightarrow> string \<Rightarrow> nat \<Rightarrow> string \<Rightarrow> nat \<Rightarrow> Connection" where
  "wire w f fp t tp = \<lparr>c_id = w, fromNodeId = f, fromPinIndex = fp, toNodeId = t, toPinIndex = tp\<rparr>"

text \<open>The entry of a result map for one node; \<open>None\<close> when there is no result map.\<close>

definition outputAt :: "jsError + outputs \<Rightarrow> string \<Rightarrow> bool list option" where
  "outputAt r k = (case r of Inl e \<Rightarrow> None | Inr m \<Rightarrow> m k)"

text \<open>
  A NOT gate \<open>a\<close> whose output pin 0 is wired to its own input pin 0, and the caller's
  loop that feeds each result back as \<^verbatim>\<open>previousOutputs\<close>: \<open>repeatEvaluate \<dots> k\<close> is
  the result of call number \<open>k\<close>, counted from 0.
\<close>

definition notGate :: "string \<Rightarrow> CircuitNode" where
  "notGate a = plainNode a NOT 1 1"

definition selfWire :: "string \<Rightarrow> string \<Rightarrow> Connection" where
  "selfWire w a = wire w a 0 a 0"


text \<open>Three gates without any wire.\<close>

definition unconnectedExample :: "CircuitNode list" where
  "unconnectedExample = [plainNode ''g'' AND 2 1, plainNode ''n'' NOT 1 1, plainNode ''l'' LED 1 0]"

text \<open>An INPUT terminal holding \<open>True\<close> wired to pin 0 of a two-input gate; pin 1 is open.\<close>

definition orExampleNodes :: "CircuitNode list" where
  "orExampleNodes = [inputNode ''i'' True, plainNode ''g'' OR 2 1]"

definition orExampleConns :: "Connection list" where
  "orExampleConns = [wire ''w'' ''i'' 0 ''g'' 0]"

definition andExampleNodes :: "CircuitNode list" where
  "andExampleNodes = [inputNode ''i'' True, plainNode ''g'' AND 2 1]"

text \<open>Two wires into the same input pin of an OUTPUT terminal.\<close>

definition doubleWireNodes :: "CircuitNode list" where
  "doubleWireNodes = [inputNode ''p'' True, inputNode ''q'' False, plainNode ''o'' OUTPUT 1 0]"

definition doubleWireConns :: "Connection list" where
  "doubleWireConns = [wire ''w1'' ''p'' 0 ''o'' 0, wire ''w2'' ''q'' 0 ''o'' 0]"

text \<open>Two NOT gates in a ring, and a frozen snapshot for them.\<close>

definition ringNodes :: "CircuitNode list" where
  "ringNodes = [notGate ''a'', notGate ''b'']"

definition ringConns :: "Connection list" where
  "ringConns = [wire ''w1'' ''a'' 0 ''b'' 0, wire ''w2'' ''b'' 0 ''a'' 0]"

definition ringFrozen :: outputs where
  "ringFrozen = [''a'' \<mapsto> [True], ''b'' \<mapsto> [True]]"

text \<open>A wire from \<open>a\<close> to \<open>b\<close>.\<close>

definition chainConns :: "Connection list" where
  "chainConns = [wire ''w1'' ''a'' 0 ''b'' 0]"

text \<open>
  An INPUT terminal feeding both pins of an AND gate, whose output feeds an OUTPUT
  terminal.
\<close>

definition fanInNodes :: "CircuitNode list" where
  "fanInNodes = [inputNode ''a'' True, plainNode ''g'' AND 2 1, plainNode ''o'' OUTPUT 1 0]"

definition fanInConns :: "Connection list" where
  "fanInConns = [wire ''w1'' ''a'' 0 ''g'' 0, wire ''w2'' ''a'' 0 ''g'' 1, wire ''w3'' ''g'' 0 ''o'' 0]"

text \<open>
  A module that passes its input through, a module that contains an instance of it, and
  a circuit with an instance of the latter between an INPUT and an OUTPUT terminal.
\<close>

definition moduleNode :: "string \<Rightarrow> string \<Rightarrow> nat \<Rightarrow> nat \<Rightarrow> CircuitNode" where
  "moduleNode k mid ic oc = (plainNode k MODULE ic oc)\<lparr>n_moduleId := Some mid\<rparr>"

definition bufferModule :: ModuleDefinition where
  "bufferModule = \<lparr>m_id = ''buf'', m_name = ''buffer'',
     m_nodes = [inputNode ''bi'' False, plainNode ''bo'' OUTPUT 1 0],
     m_connections = [wire ''bw'' ''bi'' 0 ''bo'' 0],
     inputNodeIds = [''bi''], outputNodeIds = [''bo''], m_inputCount = 1, m_outputCount = 1\<rparr>"

definition outerModule :: ModuleDefinition where
  "outerModule = \<lparr>m_id = ''outer'', m_name = ''outer'',
     m_nodes = [inputNode ''xi'' False, moduleNode ''xm'' ''buf'' 1 1, plainNode ''xo'' OUTPUT 1 0],
     m_connections = [wire ''xw1'' ''xi'' 0 ''xm'' 0, wire ''xw2'' ''xm'' 0 ''xo'' 0],
     inputNodeIds = [''xi''], outputNodeIds = [''xo''], m_inputCount = 1, m_outputCount = 1\<rparr>"

definition nestedNodes :: "CircuitNode list" where
  "nestedNodes = [inputNode ''i'' True, moduleNode ''m'' ''outer'' 1 1, plainNode ''o'' OUTPUT 1 0]"

definition nestedConns :: "Connection list" where
  "nestedConns = [wire ''w1'' ''i'' 0 ''m'' 0, wire ''w2'' ''m'' 0 ''o'' 0]"

text \<open>An INPUT terminal wired to an OUTPUT terminal, beside a NOT gate wired to itself.\<close>

definition mixedNodes :: "CircuitNode list" where
  "mixedNodes = [plainNode ''o'' OUTPUT 1 0, notGate ''n'', inputNode ''i'' True]"

definition mixedConns :: "Connection list" where
  "mixedConns = [wire ''w1'' ''i'' 0 ''o'' 0, selfWire ''w2'' ''n'']"

text \<open>
  The module INPUT to both pins of an AND gate to OUTPUT, inside a circuit that feeds
  \<open>True\<close> to its instance.
\<close>

definition roundTripModule :: ModuleDefinition where
  "roundTripModule = \<lparr>m_id = ''rt'', m_name = ''and-with-itself'',
     m_nodes = [inputNode ''mi'' False, plainNode ''mg'' AND 2 1, plainNode ''mo'' OUTPUT 1 0],
     m_connections = [wire ''mw1'' ''mi'' 0 ''mg'' 0, wire ''mw2'' ''mi'' 0 ''mg'' 1,
                      wire ''mw3'' ''mg'' 0 ''mo'' 0],
     inputNodeIds = [''mi''], outputNodeIds = [''mo''],
     m_inputCount = 1, m_outputCount = 1\<rparr>"

definition roundTripNodes :: "CircuitNode list" where
  "roundTripNodes = [inputNode ''i'' True, moduleNode ''m'' ''rt'' 1 1, plainNode ''o'' OUTPUT 1 0]"

definition roundTripConns :: "Connection list" where
  "roundTripConns = [wire ''w1'' ''i'' 0 ''m'' 0, wire ''w2'' ''m'' 0 ''o'' 0]"

text \<open>
  A module that holds an instance of itself between its terminals.
\<close>

definition selfModule :: ModuleDefinition where
  "selfModule = \<lparr>m_id = ''self'', m_name = ''self'',
     m_nodes = [inputNode ''si'' False, moduleNode ''sm'' ''self'' 1 1, plainNode ''so'' OUTPUT 1 0],
     m_connections = [wire ''sw1'' ''si'' 0 ''sm'' 0, wire ''sw2'' ''sm'' 0 ''so'' 0],
     inputNodeIds = [''si''], outputNodeIds = [''so''], m_inputCount = 1, m_outputCount = 1\<rparr>"

text \<open>
  An OUTPUT terminal \<open>o\<close> with a wire from an identifier that no node has.
\<close>

definition danglingNodes :: "CircuitNode list" where
  "danglingNodes = [plainNode ''o'' OUTPUT 1 0]"

definition danglingConns :: "string \<Rightarrow> Connection list" where
  "danglingConns k = [wire ''w'' k 0 ''o'' 0]"

section \<open>Auxiliary notions for the proofs\<close>

text \<open>
  A value that a call of \<^verbatim>\<open>evaluateNode\<close> may store for the identifier \<open>k\<close>: the output
  of the node that \<open>k\<close> denotes, for the input vector read from some pair of maps.
\<close>

definition written ::
  "(CircuitNode list \<Rightarrow> Connection list \<Rightarrow> jsError + outputs) \<Rightarrow> ModuleDefinition list
     \<Rightarrow> CircuitNode list \<Rightarrow> Connection list \<Rightarrow> string set \<Rightarrow> string \<Rightarrow> bool list \<Rightarrow> bool" where
  "written rec ms nodes conns cs k v \<longleftrightarrow>
     (\<exists>node frz src. findNode nodes k = Some node \<and>
        nodeOutput rec ms node (inputValues conns cs frz src k (n_inputCount node)) = Inr v)"

text \<open>The value that a call returns, if it returns.\<close>

fun resultOf :: "jsError + 'a \<Rightarrow> 'a option" where
  "resultOf (Inl e) = None"
| "resultOf (Inr x) = Some x"

text \<open>One iteration of the phase-2 loop on an optional result map.\<close>

definition optStep ::
  "(string \<Rightarrow> bool \<Rightarrow> outputs \<Rightarrow> outputs option) \<Rightarrow> string \<Rightarrow> outputs option \<Rightarrow> outputs option" where
  "optStep ev k st = (case st of None \<Rightarrow> None | Some out \<Rightarrow> ev k True out)"

text \<open>The connection graph: one edge per connection, from its source node to its target.\<close>

definition edgeRel :: "Connection list \<Rightarrow> (string \<times> string) set" where
  "edgeRel connections = (\<lambda>c. (fromNodeId c, toNodeId c)) ` set connections"

text \<open>
  The module definitions that the MODULE nodes of a node list resolve to, and the
  reference relation between the definitions of a library: \<open>m\<close> refers to \<open>m'\<close> when a
  MODULE node of \<open>m\<close> resolves to \<open>m'\<close>.
\<close>

definition refsOf :: "ModuleDefinition list \<Rightarrow> CircuitNode list \<Rightarrow> ModuleDefinition set" where
  "refsOf modules nodes =
     {m. \<exists>n\<in>set nodes. n_type n = MODULE \<and> findModule modules (n_moduleId n) = Some m}"

definition moduleRefs :: "ModuleDefinition list \<Rightarrow> (ModuleDefinition \<times> ModuleDefinition) set" where
  "moduleRefs modules = {(m, m'). m \<in> set modules \<and> m' \<in> refsOf modules (m_nodes m)}"

text \<open>
  No identifier of a node or of a connection endpoint is the name of an inherited
  property; and the same for the internal circuit of a module definition.
\<close>

definition safeCircuit :: "CircuitNode list \<Rightarrow> Connection list \<Rightarrow> bool" where
  "safeCircuit nodes connections \<longleftrightarrow>
     (\<forall>n\<in>set nodes. \<not> inheritedName (n_id n)) \<and>
     (\<forall>c\<in>set connections. \<not> inheritedName (fromNodeId c) \<and> \<not> inheritedName (toNodeId c))"

definition safeModule :: "ModuleDefinition \<Rightarrow> bool" where
  "safeModule m \<longleftrightarrow> safeCircuit (m_nodes m) (m_connections m)"

text \<open>
  The recursive call returns for every module that a node list refers to; and the
  evaluator returns on a module's internal circuit for every depth of the call stack from
  \<open>D\<close> on.
\<close>

definition recReturns ::
  "(CircuitNode list \<Rightarrow> Connection list \<Rightarrow> jsError + outputs) \<Rightarrow> ModuleDefinition list
     \<Rightarrow> CircuitNode list \<Rightarrow> bool" where
  "recReturns rec ms nodes \<longleftrightarrow>
     (\<forall>m\<in>refsOf ms nodes. \<forall>iv. \<exists>r. rec (internalNodes m iv) (m_connections m) = Inr r)"

definition returnsFrom :: "ModuleDefinition list \<Rightarrow> ModuleDefinition \<Rightarrow> nat \<Rightarrow> bool" where
  "returnsFrom ms m D \<longleftrightarrow>
     (\<forall>d\<ge>D. \<forall>iv. \<exists>r. evaluateCircuit d (internalNodes m iv) (m_connections m) ms None = Inr r)"

text \<open>
  What the indexer establishes for the node identifiers \<open>ids\<close> and a list \<open>cs\<close> of
  connections: both maps are defined exactly on \<open>ids\<close>, hold duplicate-free lists, and
  record \<open>k\<close> as a successor of \<open>p\<close> (and \<open>p\<close> as a predecessor of \<open>k\<close>) exactly when a
  connection of \<open>cs\<close> leads from \<open>p\<close> to \<open>k\<close> and both are node identifiers.
\<close>

definition edgeInv ::
  "string set \<Rightarrow> Connection list \<Rightarrow> (string \<rightharpoonup> string list) \<times> (string \<rightharpoonup> string list) \<Rightarrow> bool" where
  "edgeInv ids cs E \<longleftrightarrow>
     dom (fst E) = ids \<and> dom (snd E) = ids \<and>
     (\<forall>p. distinct (succs (fst E) p)) \<and> (\<forall>k. distinct (succs (snd E) k)) \<and>
     (\<forall>p k. k \<in> set (succs (fst E) p) \<longleftrightarrow>
        p \<in> ids \<and> k \<in> ids \<and> (\<exists>c\<in>set cs. fromNodeId c = p \<and> toNodeId c = k)) \<and>
     (\<forall>p k. p \<in> set (succs (snd E) k) \<longleftrightarrow>
        p \<in> ids \<and> k \<in> ids \<and> (\<exists>c\<in>set cs. fromNodeId c = p \<and> toNodeId c = k))"

text \<open>Every element of the list comes after all of its recorded predecessors.\<close>

definition predsFirst :: "(string \<rightharpoonup> string list) \<Rightarrow> string list \<Rightarrow> bool" where
  "predsFirst ie xs \<longleftrightarrow> (\<forall>ys k zs. xs = ys @ k # zs \<longrightarrow> set (succs ie k) \<subseteq> set ys)"

text \<open>
  The loop invariant of Kahn's algorithm: the processed and the queued identifiers are
  pairwise distinct node identifiers; the in-degree of a node counts its predecessors not
  yet processed; a node is processed or queued exactly when all its predecessors are
  processed; and the processed sequence respects the predecessor relation.
\<close>

definition kahnInv ::
  "string set \<Rightarrow> (string \<rightharpoonup> string list) \<Rightarrow> (string \<times> int) list \<Rightarrow> string list \<Rightarrow> string list
     \<Rightarrow> bool" where
  "kahnInv ids ie deg queue srt \<longleftrightarrow>
     distinct (srt @ queue) \<and> set (srt @ queue) \<subseteq> ids \<and>
     (\<forall>k\<in>ids. map_of deg k = Some (int (card (set (succs ie k) - set srt)))) \<and>
     (\<forall>k\<in>ids. k \<in> set (srt @ queue) \<longleftrightarrow> set (succs ie k) \<subseteq> set srt) \<and>
     predsFirst ie srt"

text \<open>
  In an evaluation sequence, a node outside the cycle set comes after every node outside
  the cycle set that a connection leads from to it.
\<close>

definition srcsBefore :: "Connection list \<Rightarrow> string set \<Rightarrow> string list \<Rightarrow> bool" where
  "srcsBefore conns cs xs \<longleftrightarrow>
     (\<forall>ys k zs. xs = ys @ k # zs \<and> k \<notin> cs \<longrightarrow>
        (\<forall>c\<in>set conns. toNodeId c = k \<and> fromNodeId c \<notin> cs \<longrightarrow> fromNodeId c \<notin> set (k # zs)))"

text \<open>
  The number of slots that an entry of \<^verbatim>\<open>inputNodeIds\<close> takes in the loop of lines 119-134,
  in the loops of lines 141-146 and 153-158, and in the specification's flattening.
\<close>

definition slots1 :: "CircuitNode list \<Rightarrow> string \<Rightarrow> nat" where
  "slots1 ns t =
     (case findNode ns t of
        None \<Rightarrow> 0
      | Some n \<Rightarrow> if n_type n = INPUT then 1 else if n_type n = PINBAR then n_outputCount n else 0)"

definition slots2 :: "CircuitNode list \<Rightarrow> string \<Rightarrow> nat" where
  "slots2 ns t =
     (case findNode ns t of
        None \<Rightarrow> 1
      | Some n \<Rightarrow> if n_type n = PINBAR then n_outputCount n else 1)"

definition slotsS :: "CircuitNode list \<Rightarrow> string \<Rightarrow> nat" where
  "slotsS ns t =
     (case findNode ns t of
        None \<Rightarrow> 0
      | Some n \<Rightarrow> if isInputTerminal n then terminalWidth n else 0)"

section \<open>Unfolding rules for evaluating concrete circuits\<close>

lemmas graph_defs = topoOrder_def buildEdges_def initEdges_def addEdge_def setAdd_def
  hasProperty_def inheritedName_def
  initInDegree_def initQueue_def collectCycle_def succs_def

lemmas eval_defs = evaluateBody_def runPasses_def evaluateNode_def findNode_def inputValues_def
  findConn_def nodeOutput_def refreshFrozen_def seedOutputs_def readPin_def nthOrFalse_def

lemmas example_defs = plainNode_def inputNode_def wire_def outputAt_def

lemmas module_defs = findModule_def internalNodes_def internalNode_def indexOf_def actualIdx_def
  moduleResult_def pinBarModeOf_def

lemmas spec_defs = specModule_def specWorkingCopy_def specInject_def specOutputBits_def
  standalone_def isInputTerminal_def isOutputBar_def tracedBits_def terminalWidth_def

section \<open>The evaluation sequence consists of node identifiers\<close>

lemma initInDegree_keys_aux:
  "fst ` set (fold (\<lambda>n deg. AList.update (n_id n) (f n) deg) nodes acc)
     = fst ` set acc \<union> n_id ` set nodes"
  by (induction nodes arbitrary: acc) (auto simp: AList.dom_update)

lemma initInDegree_keys: "fst ` set (initInDegree nodes inEdges) = n_id ` set nodes"
  unfolding initInDegree_def by (simp add: initInDegree_keys_aux)

lemma relax_keys:
  "relax xs (deg, queue) = (deg', queue') \<Longrightarrow>
   fst ` set deg' = fst ` set deg \<and> set queue' \<subseteq> set queue \<union> fst ` set deg"
proof (induction xs arbitrary: deg queue)
  case Nil
  then show ?case by auto
next
  case (Cons nx rest)
  show ?case
  proof (cases "map_of deg nx")
    case None
    with Cons show ?thesis by simp
  next
    case (Some d)
    then have k: "nx \<in> fst ` set deg"
      by (metis map_of_eq_None_iff option.distinct(1))
    from Cons.prems Some
    have "relax rest (AList.update nx (d - 1) deg,
                      if d - 1 = 0 then queue @ [nx] else queue) = (deg', queue')"
      by simp
    from Cons.IH [OF this] k show ?thesis
      by (auto simp: AList.dom_update split: if_splits)
  qed
qed

lemma kahnLoop_subset:
  "set (kahnLoop outEdges deg queue sortedIds) \<subseteq> set sortedIds \<union> set queue \<union> fst ` set deg"
proof (induction outEdges deg queue sortedIds rule: kahnLoop.induct)
  case (1 outEdges deg sortedIds)
  then show ?case by simp
next
  case (2 outEdges deg x queue sortedIds)
  obtain deg' queue' where r: "relax (succs outEdges x) (deg, queue) = (deg', queue')"
    by (cases "relax (succs outEdges x) (deg, queue)")
  from "2.IH" [OF r [symmetric]] relax_keys [OF r] r
  show ?case by auto
qed

lemma collectCycle_sets:
  "collectCycle nodes (s, c) = (s', c') \<Longrightarrow>
   set s' = set s \<union> n_id ` set nodes \<and> set c' \<subseteq> set c \<union> n_id ` set nodes"
proof (induction nodes arbitrary: s c)
  case Nil
  then show ?case by (simp add: collectCycle_def)
next
  case (Cons n nodes)
  show ?case
  proof (cases "n_id n \<in> set s")
    case True
    with Cons.prems have "collectCycle nodes (s, c) = (s', c')"
      by (simp add: collectCycle_def)
    from Cons.IH [OF this] True show ?thesis by auto
  next
    case False
    with Cons.prems have "collectCycle nodes (s @ [n_id n], c @ [n_id n]) = (s', c')"
      by (simp add: collectCycle_def)
    from Cons.IH [OF this] show ?thesis by auto
  qed
qed

lemma topoOrder_ids:
  assumes "topoOrder nodes connections = Inr (s, c)"
  shows "set s = n_id ` set nodes" and "set c \<subseteq> n_id ` set nodes"
proof -
  from assms obtain oe ie where e: "buildEdges nodes connections = Inr (oe, ie)"
    by (auto simp: topoOrder_def split: sum.splits)
  let ?deg = "initInDegree nodes ie"
  let ?k = "kahnLoop oe ?deg (initQueue nodes ?deg) []"
  from assms e have cc: "collectCycle nodes (?k, []) = (s, c)"
    by (simp add: topoOrder_def Let_def)
  have "set ?k \<subseteq> n_id ` set nodes"
    using kahnLoop_subset [of oe ?deg "initQueue nodes ?deg" "[]"]
    by (auto simp: initInDegree_keys initQueue_def)
  with collectCycle_sets [OF cc] show "set s = n_id ` set nodes" and "set c \<subseteq> n_id ` set nodes"
    by auto
qed

section \<open>Every node receives an entry, written by its own kind's rule\<close>

lemma findNode_Some_iff: "(\<exists>n. findNode nodes k = Some n) \<longleftrightarrow> k \<in> n_id ` set nodes"
  unfolding findNode_def by (cases "find (\<lambda>n. n_id n = k) nodes") (auto simp: find_None_iff find_Some_iff)

lemma evaluateNode_Some:
  assumes "evaluateNode rec ms nodes conns cs frz k b out = Inr out'"
    and "findNode nodes k = Some node"
  shows "\<exists>v. out' = out(k \<mapsto> v) \<and>
           nodeOutput rec ms node
             (inputValues conns cs frz (if b then frz else out) k (n_inputCount node)) = Inr v"
  using assms by (auto simp: evaluateNode_def split: sum.splits)

lemma pass2_entries:
  assumes "\<And>k out out'. k \<in> set xs \<Longrightarrow> ev k True out = Inr out' \<Longrightarrow> \<exists>v. out' = out(k \<mapsto> v) \<and> Q k v"
    and "pass2 ev xs out = Inr out'"
  shows "(\<forall>k\<in>set xs. \<exists>v. out' k = Some v \<and> Q k v) \<and> (\<forall>k. k \<notin> set xs \<longrightarrow> out' k = out k)"
  using assms
proof (induction xs arbitrary: out)
  case Nil
  then show ?case by simp
next
  case (Cons x xs)
  from Cons.prems(2) obtain out1 where e: "ev x True out = Inr out1"
    and p: "pass2 ev xs out1 = Inr out'"
    by (auto split: sum.splits)
  have "x \<in> set (x # xs)" by simp
  from Cons.prems(1) [OF this e] obtain v where v: "out1 = out(x \<mapsto> v)" "Q x v"
    by blast
  have ih: "(\<forall>k\<in>set xs. \<exists>v. out' k = Some v \<and> Q k v) \<and> (\<forall>k. k \<notin> set xs \<longrightarrow> out' k = out1 k)"
    by (rule Cons.IH [OF _ p]) (use Cons.prems(1) in auto)
  show ?case
  proof (intro conjI ballI allI impI)
    fix k assume "k \<in> set (x # xs)"
    show "\<exists>v. out' k = Some v \<and> Q k v"
    proof (cases "k \<in> set xs")
      case True
      with ih show ?thesis by blast
    next
      case False
      with \<open>k \<in> set (x # xs)\<close> have "k = x" by simp
      with False ih v show ?thesis by simp
    qed
  next
    fix k assume "k \<notin> set (x # xs)"
    with ih v show "out' k = out k" by simp
  qed
qed

lemma pass1_entries:
  assumes "\<And>k out out'. k \<in> set xs \<Longrightarrow> ev k False out = Inr out' \<Longrightarrow> \<exists>v. out' = out(k \<mapsto> v) \<and> Q k v"
    and "pass1 ev cs xs out = Inr out'"
  shows "(\<forall>k\<in>set xs - cs. \<exists>v. out' k = Some v \<and> Q k v) \<and> (\<forall>k. k \<notin> set xs - cs \<longrightarrow> out' k = out k)"
  using assms
proof (induction xs arbitrary: out)
  case Nil
  then show ?case by simp
next
  case (Cons x xs)
  show ?case
  proof (cases "x \<in> cs")
    case True
    with Cons.prems(2) have p: "pass1 ev cs xs out = Inr out'" by simp
    have "(\<forall>k\<in>set xs - cs. \<exists>v. out' k = Some v \<and> Q k v) \<and> (\<forall>k. k \<notin> set xs - cs \<longrightarrow> out' k = out k)"
      by (rule Cons.IH [OF _ p]) (use Cons.prems(1) in auto)
    with True show ?thesis by auto
  next
    case False
    with Cons.prems(2) obtain out1 where e: "ev x False out = Inr out1"
      and p: "pass1 ev cs xs out1 = Inr out'"
      by (auto split: sum.splits)
    have "x \<in> set (x # xs)" by simp
    from Cons.prems(1) [OF this e] obtain v where v: "out1 = out(x \<mapsto> v)" "Q x v"
      by blast
    have ih: "(\<forall>k\<in>set xs - cs. \<exists>v. out' k = Some v \<and> Q k v) \<and> (\<forall>k. k \<notin> set xs - cs \<longrightarrow> out' k = out1 k)"
      by (rule Cons.IH [OF _ p]) (use Cons.prems(1) in auto)
    show ?thesis
    proof (intro conjI ballI allI impI)
      fix k assume k: "k \<in> set (x # xs) - cs"
      show "\<exists>v. out' k = Some v \<and> Q k v"
      proof (cases "k \<in> set xs")
        case True
        with ih k show ?thesis by blast
      next
        case False
        with k have "k = x" by simp
        with False ih v show ?thesis by simp
      qed
    next
      fix k assume "k \<notin> set (x # xs) - cs"
      with ih v False show "out' k = out k" by auto
    qed
  qed
qed

lemma evaluateNode_written:
  assumes "k \<in> n_id ` set nodes" and "evaluateNode rec ms nodes conns cs frz k b out = Inr out'"
  shows "\<exists>v. out' = out(k \<mapsto> v) \<and> written rec ms nodes conns cs k v"
proof -
  from assms(1) obtain node where n: "findNode nodes k = Some node"
    using findNode_Some_iff by blast
  from evaluateNode_Some [OF assms(2) n] n show ?thesis
    unfolding written_def by blast
qed

lemma runPasses_entry:
  assumes r: "runPasses rec nodes conns ms prev s c = Inr r"
    and s: "set s = n_id ` set nodes" and c: "set c \<subseteq> n_id ` set nodes"
    and k: "k \<in> n_id ` set nodes"
  shows "\<exists>v. r k = Some v \<and> written rec ms nodes conns (set c) k v"
proof -
  from r obtain seed out1 where
    sd: "seedOutputs prev c = Inr seed"
    and p1: "pass1 (evaluateNode rec ms nodes conns (set c) seed) (set c) s seed = Inr out1"
    and p2: "pass2 (evaluateNode rec ms nodes conns (set c)
                      (refreshFrozen (set c) s out1 seed)) c out1 = Inr r"
    by (auto simp: runPasses_def split: sum.splits)
  have e1: "(\<forall>k\<in>set s - set c. \<exists>v. out1 k = Some v \<and> written rec ms nodes conns (set c) k v)
            \<and> (\<forall>k. k \<notin> set s - set c \<longrightarrow> out1 k = seed k)"
  proof (rule pass1_entries [OF _ p1])
    fix k out out'
    assume a: "k \<in> set s"
      and b: "evaluateNode rec ms nodes conns (set c) seed k False out = Inr out'"
    from a s have "k \<in> n_id ` set nodes" by simp
    then show "\<exists>v. out' = out(k \<mapsto> v) \<and> written rec ms nodes conns (set c) k v"
      using b by (rule evaluateNode_written)
  qed
  have e2: "(\<forall>k\<in>set c. \<exists>v. r k = Some v \<and> written rec ms nodes conns (set c) k v)
            \<and> (\<forall>k. k \<notin> set c \<longrightarrow> r k = out1 k)"
  proof (rule pass2_entries [OF _ p2])
    fix k out out'
    assume a: "k \<in> set c"
      and b: "evaluateNode rec ms nodes conns (set c) (refreshFrozen (set c) s out1 seed)
                k True out = Inr out'"
    from a c have "k \<in> n_id ` set nodes" by blast
    then show "\<exists>v. out' = out(k \<mapsto> v) \<and> written rec ms nodes conns (set c) k v"
      using b by (rule evaluateNode_written)
  qed
  show ?thesis
  proof (cases "k \<in> set c")
    case True
    with e2 show ?thesis by blast
  next
    case False
    with k s have "k \<in> set s - set c" by simp
    with e1 obtain v where "out1 k = Some v" "written rec ms nodes conns (set c) k v"
      by blast
    with e2 False show ?thesis by simp
  qed
qed

lemma evaluateBody_entry:
  assumes "evaluateBody rec nodes conns ms prev = Inr r" and "k \<in> n_id ` set nodes"
  shows "\<exists>s c v. topoOrder nodes conns = Inr (s, c) \<and> r k = Some v \<and>
           written rec ms nodes conns (set c) k v"
proof -
  from assms(1) obtain s c where t: "topoOrder nodes conns = Inr (s, c)"
    and "runPasses rec nodes conns ms prev s c = Inr r"
    by (auto simp: evaluateBody_def split: sum.splits)
  from runPasses_entry [OF this(2) topoOrder_ids [OF t] assms(2)] t show ?thesis by blast
qed

lemma evaluateCircuit_entry:
  assumes "evaluateCircuit depth nodes conns ms prev = Inr r" and "findNode nodes k = Some node"
  shows "\<exists>s c frz src v. topoOrder nodes conns = Inr (s, c) \<and> r k = Some v \<and>
           nodeOutput (\<lambda>ns cs. evaluateCircuit (depth - 1) ns cs ms None) ms node
             (inputValues conns (set c) frz src k (n_inputCount node))
           = Inr v"
proof (cases depth)
  case 0
  with assms show ?thesis by simp
next
  case (Suc d)
  from assms(2) have "k \<in> n_id ` set nodes"
    using findNode_Some_iff by blast
  from evaluateBody_entry [OF _ this] assms Suc show ?thesis
    unfolding written_def by fastforce
qed

section \<open>Input vectors\<close>

lemma length_inputValues [simp]: "length (inputValues conns cs frz src k n) = n"
  by (simp add: inputValues_def)

lemma inputValues_unconnected:
  "findConn conns k i = None \<Longrightarrow> nthOrFalse (inputValues conns cs frz src k n) i = False"
  by (simp add: inputValues_def nthOrFalse_def)

lemma nthOrFalse_inputValues_connected:
  "nthOrFalse (inputValues conns cs frz src k n) i \<Longrightarrow> i < n \<and> findConn conns k i \<noteq> None"
  by (cases "findConn conns k i") (auto simp: inputValues_def nthOrFalse_def split: if_splits)

lemma findConn_None_if_no_target:
  "\<forall>c\<in>set conns. toNodeId c \<noteq> k \<Longrightarrow> findConn conns k i = None"
  by (auto simp: findConn_def find_None_iff)

section \<open>Phase 2 reads the frozen snapshot only\<close>

lemma evaluateNode_cycle_overlay:
  "evaluateNode rec ms nodes conns cs frz k True out =
     map_sum id (\<lambda>w. out ++ w) (evaluateNode rec ms nodes conns cs frz k True Map.empty)"
  by (simp add: evaluateNode_def split: option.splits sum.splits)

lemma fold_optStep_None: "fold (optStep ev) xs None = None"
  by (induction xs) (simp_all add: optStep_def)

lemma pass2_fold:
  "resultOf (pass2 ev xs out) = fold (optStep (\<lambda>k b out. resultOf (ev k b out))) xs (Some out)"
  by (induction xs arbitrary: out) (auto simp: optStep_def fold_optStep_None split: sum.splits)

lemma evaluateNode_cycle_domain:
  "evaluateNode rec ms nodes conns cs frz k True Map.empty = Inr w \<Longrightarrow> dom w \<subseteq> {k}"
  by (auto simp: evaluateNode_def split: option.splits sum.splits if_splits)

lemma optStep_commute:
  fixes rec ms nodes conns cs frz
  defines "ev \<equiv> \<lambda>k b out. resultOf (evaluateNode rec ms nodes conns cs frz k b out)"
  shows "optStep ev x \<circ> optStep ev y = optStep ev y \<circ> optStep ev x"
proof (rule ext)
  fix st
  define W where "W k = ev k True Map.empty" for k
  have ov: "ev k True o1 = map_option (\<lambda>w. o1 ++ w) (W k)" for k o1
    unfolding ev_def W_def
    by (subst evaluateNode_cycle_overlay)
      (cases "evaluateNode rec ms nodes conns cs frz k True Map.empty", simp_all)
  have dm: "dom w \<subseteq> {k}" if "W k = Some w" for k w
  proof -
    from that have "evaluateNode rec ms nodes conns cs frz k True Map.empty = Inr w"
      unfolding ev_def W_def
      by (cases "evaluateNode rec ms nodes conns cs frz k True Map.empty") simp_all
    then show ?thesis by (rule evaluateNode_cycle_domain)
  qed
  show "(optStep ev x \<circ> optStep ev y) st = (optStep ev y \<circ> optStep ev x) st"
  proof (cases st)
    case None
    then show ?thesis by (simp add: optStep_def)
  next
    case (Some out)
    show ?thesis
    proof (cases "x = y")
      case True
      then show ?thesis by simp
    next
      case False
      show ?thesis
      proof (cases "W x")
        case None
        then show ?thesis
          using Some by (cases "W y") (simp_all add: optStep_def ov)
      next
        case wx: (Some wx)
        show ?thesis
        proof (cases "W y")
          case None
          then show ?thesis
            using Some wx by (simp add: optStep_def ov)
        next
          case wy: (Some wy)
          from dm [OF wx] dm [OF wy] False have "dom wx \<inter> dom wy = {}" by auto
          then have "wx ++ wy = wy ++ wx"
            by (rule map_add_comm)
          then have "out ++ wx ++ wy = out ++ wy ++ wx"
            by (metis map_add_assoc)
          then show ?thesis
            using Some wx wy by (simp add: optStep_def ov)
        qed
      qed
    qed
  qed
qed

section \<open>Breadth-first search decides reachability\<close>

lemma adjLookup_update:
  "adjLookup (AList.update k v adj) x = (if x = k then v else adjLookup adj x)"
  by (simp add: adjLookup_def update_conv')

lemma adjPushAll_safe:
  assumes "\<forall>c\<in>set conns. \<not> inheritedName (fromNodeId c)"
  shows "\<exists>adj'. adjPushAll conns adj = Inr adj' \<and>
           (\<forall>x. adjLookup adj' x
                  = adjLookup adj x @ map toNodeId (filter (\<lambda>c. fromNodeId c = x) conns))"
  using assms
proof (induction conns arbitrary: adj)
  case Nil
  then show ?case by simp
next
  case (Cons c conns)
  let ?adj1 = "AList.update (fromNodeId c) (adjLookup adj (fromNodeId c) @ [toNodeId c]) adj"
  from Cons.prems have p: "adjPush c adj = Inr ?adj1"
    by (simp add: adjPush_def)
  from Cons.prems have "\<forall>c\<in>set conns. \<not> inheritedName (fromNodeId c)" by simp
  from Cons.IH [OF this, of ?adj1] obtain adj' where
    a: "adjPushAll conns ?adj1 = Inr adj'"
    and l: "\<And>x. adjLookup adj' x
                  = adjLookup ?adj1 x @ map toNodeId (filter (\<lambda>c. fromNodeId c = x) conns)"
    by blast
  have "adjPushAll (c # conns) adj = Inr adj'"
    using p a by simp
  moreover have "adjLookup adj' x
      = adjLookup adj x @ map toNodeId (filter (\<lambda>c. fromNodeId c = x) (c # conns))" for x
    unfolding l by (simp add: adjLookup_update)
  ultimately show ?case by blast
qed

lemma buildAdj_safe:
  assumes "\<forall>c\<in>set connections. \<not> inheritedName (fromNodeId c)"
  shows "\<exists>adj. buildAdj connections = Inr adj \<and>
           (\<forall>x. set (adjLookup adj x) = {y. (x, y) \<in> edgeRel connections})"
proof -
  from adjPushAll_safe [OF assms, of "[]"] obtain adj where
    a: "adjPushAll connections [] = Inr adj"
    and l: "\<And>x. adjLookup adj x
                  = adjLookup [] x @ map toNodeId (filter (\<lambda>c. fromNodeId c = x) connections)"
    by blast
  have "set (adjLookup adj x) = {y. (x, y) \<in> edgeRel connections}" for x
    unfolding l by (auto simp: adjLookup_def edgeRel_def)
  with a show ?thesis
    unfolding buildAdj_def by blast
qed

lemma rtrancl_leaves:
  assumes "(x, y) \<in> E\<^sup>*" and "x \<in> V" and "y \<notin> V"
  shows "\<exists>v w. v \<in> V \<and> w \<notin> V \<and> (v, w) \<in> E \<and> (w, y) \<in> E\<^sup>*"
  using assms
proof (induction rule: converse_rtrancl_induct)
  case base
  then show ?case by simp
next
  case (step x z)
  show ?case
  proof (cases "z \<in> V")
    case True
    with step show ?thesis by blast
  next
    case False
    with step show ?thesis by blast
  qed
qed

lemma bfsLoop_correct:
  assumes "\<And>x. set (adjLookup adj x) = {y. (x, y) \<in> E}"
    and "fromId \<notin> visited"
    and "\<forall>v\<in>visited. \<forall>w. (v, w) \<in> E \<longrightarrow> w \<in> visited \<union> set q"
    and "\<forall>x\<in>set q. \<not> inheritedName x"
    and "\<And>x y. (x, y) \<in> E \<Longrightarrow> \<not> inheritedName y"
  shows "bfsLoop adj fromId visited q = Inr (\<exists>x\<in>set q. (x, fromId) \<in> E\<^sup>*)"
  using assms
proof (induction adj fromId visited q rule: bfsLoop.induct)
  case (1 adj fromId visited)
  then show ?case by simp
next
  case (2 adj fromId visited current q)
  note adj = "2.prems"(1)
  note tgt = "2.prems"(5)
  from "2.prems"(4) have safe: "\<not> (map_of adj current = None \<and> inheritedName current)"
    and sq: "\<forall>x\<in>set q. \<not> inheritedName x"
    by simp_all
  show ?case
  proof (cases "current = fromId")
    case True
    then show ?thesis by auto
  next
    case neq: False
    show ?thesis
    proof (cases "current \<in> visited")
      case True
      have cl: "\<forall>v\<in>visited. \<forall>w. (v, w) \<in> E \<longrightarrow> w \<in> visited \<union> set q"
        using "2.prems"(3) True by auto
      have ih: "bfsLoop adj fromId visited q = Inr (\<exists>x\<in>set q. (x, fromId) \<in> E\<^sup>*)"
        by (rule "2.IH"(1) [OF neq True adj "2.prems"(2) cl sq tgt])
      have "\<exists>x\<in>set q. (x, fromId) \<in> E\<^sup>*" if "(current, fromId) \<in> E\<^sup>*"
      proof -
        from rtrancl_leaves [OF that True "2.prems"(2)]
        obtain v w where "v \<in> visited" "w \<notin> visited" "(v, w) \<in> E" "(w, fromId) \<in> E\<^sup>*"
          by blast
        with cl show ?thesis by blast
      qed
      with ih neq True show ?thesis by auto
    next
      case False
      have nv: "fromId \<notin> insert current visited"
        using neq "2.prems"(2) by auto
      have cl: "\<forall>v\<in>insert current visited. \<forall>w. (v, w) \<in> E \<longrightarrow>
                  w \<in> insert current visited \<union> set (q @ adjLookup adj current)"
        using "2.prems"(3) adj [of current] by auto
      have sq': "\<forall>x\<in>set (q @ adjLookup adj current). \<not> inheritedName x"
        using sq adj [of current] tgt by auto
      have ih: "bfsLoop adj fromId (insert current visited) (q @ adjLookup adj current)
                  = Inr (\<exists>x\<in>set (q @ adjLookup adj current). (x, fromId) \<in> E\<^sup>*)"
        by (rule "2.IH"(2) [OF neq False safe adj nv cl sq' tgt])
      have a: "\<exists>x\<in>set (q @ adjLookup adj current). (x, fromId) \<in> E\<^sup>*"
        if "(current, fromId) \<in> E\<^sup>*"
      proof -
        from that neq obtain w where "(current, w) \<in> E" "(w, fromId) \<in> E\<^sup>*"
          by (meson converse_rtranclE)
        with adj [of current] show ?thesis by auto
      qed
      have b: "(current, fromId) \<in> E\<^sup>*"
        if "x \<in> set (adjLookup adj current)" "(x, fromId) \<in> E\<^sup>*" for x
        using that adj [of current] by (auto intro: converse_rtrancl_into_rtrancl)
      from ih neq False safe a b show ?thesis by auto
    qed
  qed
qed

section \<open>Keys that are not array indices\<close>

lemma arrayIndex_letters [simp]: "arrayIndex ''a'' = None" "arrayIndex ''g'' = None" "arrayIndex ''o'' = None"
  by (simp_all add: arrayIndex_def isDigit_def)

section \<open>The evaluator returns when module references are acyclic\<close>

lemma findModule_in_set: "findModule ms k = Some m \<Longrightarrow> m \<in> set ms"
  by (auto simp: findModule_def find_Some_iff split: option.splits)

lemma refsOf_subset: "refsOf ms nodes \<subseteq> set ms"
  by (auto simp: refsOf_def dest: findModule_in_set)

lemma finite_moduleRefs: "finite (moduleRefs ms)"
proof (rule finite_subset)
  show "moduleRefs ms \<subseteq> set ms \<times> set ms"
    using refsOf_subset by (auto simp: moduleRefs_def)
qed simp

lemma internalNode_kind [simp]:
  "n_type (internalNode m miv n) = n_type n" "n_moduleId (internalNode m miv n) = n_moduleId n"
  "n_id (internalNode m miv n) = n_id n"
  by (simp_all add: internalNode_def)

lemma refsOf_internalNodes [simp]: "refsOf ms (internalNodes m iv) = refsOf ms (m_nodes m)"
  by (auto simp: refsOf_def internalNodes_def)

lemma nodeOutput_returns:
  assumes "\<And>m. n_type node = MODULE \<Longrightarrow> findModule ms (n_moduleId node) = Some m \<Longrightarrow>
              \<exists>r. rec (internalNodes m iv) (m_connections m) = Inr r"
  shows "\<exists>v. nodeOutput rec ms node iv = Inr v"
proof (cases "n_type node = MODULE")
  case False
  then show ?thesis
    by (cases "n_type node") (simp_all add: nodeOutput_def)
next
  case True
  show ?thesis
  proof (cases "findModule ms (n_moduleId node)")
    case None
    with True show ?thesis by (simp add: nodeOutput_def)
  next
    case (Some m)
    from assms [OF True Some] obtain r where "rec (internalNodes m iv) (m_connections m) = Inr r"
      by blast
    with True Some show ?thesis by (simp add: nodeOutput_def)
  qed
qed

lemma evaluateNode_returns:
  assumes "recReturns rec ms nodes"
  shows "\<exists>out'. evaluateNode rec ms nodes conns cs frz k b out = Inr out'"
proof (cases "findNode nodes k")
  case None
  then show ?thesis by (simp add: evaluateNode_def)
next
  case (Some node)
  then have mem: "node \<in> set nodes"
    by (auto simp: findNode_def find_Some_iff)
  let ?iv = "inputValues conns cs frz (if b then frz else out) k (n_inputCount node)"
  have "\<exists>v. nodeOutput rec ms node ?iv = Inr v"
  proof (rule nodeOutput_returns)
    fix m assume "n_type node = MODULE" "findModule ms (n_moduleId node) = Some m"
    with mem have "m \<in> refsOf ms nodes"
      by (auto simp: refsOf_def)
    with assms show "\<exists>r. rec (internalNodes m ?iv) (m_connections m) = Inr r"
      by (simp add: recReturns_def)
  qed
  with Some show ?thesis by (auto simp: evaluateNode_def)
qed

lemma pass1_returns:
  assumes "\<And>k b out. \<exists>out'. ev k b out = Inr out'"
  shows "\<exists>out'. pass1 ev cs xs out = Inr out'"
proof (induction xs arbitrary: out)
  case Nil
  then show ?case by simp
next
  case (Cons x xs)
  from assms obtain out1 where "ev x False out = Inr out1" by blast
  with Cons.IH show ?case by simp
qed

lemma pass2_returns:
  assumes "\<And>k b out. \<exists>out'. ev k b out = Inr out'"
  shows "\<exists>out'. pass2 ev xs out = Inr out'"
proof (induction xs arbitrary: out)
  case Nil
  then show ?case by simp
next
  case (Cons x xs)
  from assms obtain out1 where "ev x True out = Inr out1" by blast
  with Cons.IH show ?case by simp
qed

lemma addEdge_safe:
  assumes "\<not> inheritedName (fromNodeId c)" and "\<not> inheritedName (toNodeId c)"
  shows "\<exists>E'. addEdge c E = Inr E'"
  using assms by (auto simp: addEdge_def hasProperty_def)

lemma addEdges_safe:
  assumes "\<forall>c\<in>set conns. \<not> inheritedName (fromNodeId c) \<and> \<not> inheritedName (toNodeId c)"
  shows "\<exists>E'. addEdges conns E = Inr E'"
  using assms
proof (induction conns arbitrary: E)
  case Nil
  then show ?case by simp
next
  case (Cons c conns)
  then obtain E1 where "addEdge c E = Inr E1"
    using addEdge_safe [of c E] by auto
  with Cons show ?case by simp
qed

lemma topoOrder_returns:
  assumes "\<forall>c\<in>set conns. \<not> inheritedName (fromNodeId c) \<and> \<not> inheritedName (toNodeId c)"
  shows "\<exists>s c. topoOrder nodes conns = Inr (s, c)"
proof -
  from addEdges_safe [OF assms] obtain oe ie where
    "buildEdges nodes conns = Inr (oe, ie)"
    unfolding buildEdges_def by (metis surj_pair)
  then show ?thesis
    by (simp add: topoOrder_def Let_def)
qed

lemma seedOutputs_returns:
  assumes "\<forall>k\<in>set c. \<not> inheritedName k"
  shows "\<exists>seed. seedOutputs prev c = Inr seed"
  using assms by (cases prev) (auto simp: seedOutputs_def list_ex_iff)

lemma evaluateBody_returns:
  assumes "recReturns rec ms nodes" and "safeCircuit nodes conns"
  shows "\<exists>r. evaluateBody rec nodes conns ms prev = Inr r"
proof -
  from assms(2) obtain s c where t: "topoOrder nodes conns = Inr (s, c)"
    using topoOrder_returns unfolding safeCircuit_def by blast
  from topoOrder_ids(2) [OF t] assms(2) have "\<forall>k\<in>set c. \<not> inheritedName k"
    unfolding safeCircuit_def by blast
  from seedOutputs_returns [OF this] obtain seed where sd: "seedOutputs prev c = Inr seed"
    by blast
  obtain out1 where p1: "pass1 (evaluateNode rec ms nodes conns (set c) seed) (set c) s seed = Inr out1"
    using pass1_returns [of "evaluateNode rec ms nodes conns (set c) seed"]
      evaluateNode_returns [OF assms(1)] by meson
  obtain r where "pass2 (evaluateNode rec ms nodes conns (set c)
                    (refreshFrozen (set c) s out1 seed)) c out1 = Inr r"
    using pass2_returns [of "evaluateNode rec ms nodes conns (set c) (refreshFrozen (set c) s out1 seed)"]
      evaluateNode_returns [OF assms(1)] by meson
  with p1 t sd show ?thesis
    by (simp add: evaluateBody_def runPasses_def)
qed

lemma safeCircuit_internalNodes [simp]:
  "safeCircuit (internalNodes m iv) cs = safeCircuit (m_nodes m) cs"
  by (simp add: safeCircuit_def internalNodes_def)

lemma uniform_bound:
  assumes "finite S" and "\<forall>m\<in>S. \<exists>D. returnsFrom ms m D"
  shows "\<exists>D. \<forall>m\<in>S. returnsFrom ms m D"
  using assms
proof (induction S)
  case empty
  then show ?case by simp
next
  case (insert x S)
  then obtain D1 D2 where d1: "returnsFrom ms x D1" and d2: "\<forall>m\<in>S. returnsFrom ms m D2"
    by auto
  have "\<forall>m\<in>insert x S. returnsFrom ms m (max D1 D2)"
    using d1 d2 unfolding returnsFrom_def by auto
  then show ?case by blast
qed

lemma evaluateCircuit_returns_step:
  assumes "\<forall>m\<in>refsOf ms nodes. \<exists>D. returnsFrom ms m D"
  shows "\<exists>D. \<forall>d\<ge>D. \<forall>ns cs prev. refsOf ms ns \<subseteq> refsOf ms nodes \<and> safeCircuit ns cs \<longrightarrow>
           (\<exists>r. evaluateCircuit d ns cs ms prev = Inr r)"
proof -
  have "finite (refsOf ms nodes)"
    using refsOf_subset by (rule finite_subset) simp
  from uniform_bound [OF this assms] obtain D where D: "\<forall>m\<in>refsOf ms nodes. returnsFrom ms m D"
    by blast
  have "\<exists>r. evaluateCircuit d ns cs ms prev = Inr r"
    if d: "d \<ge> Suc D" and sub: "refsOf ms ns \<subseteq> refsOf ms nodes" and safe: "safeCircuit ns cs"
    for d ns cs prev
  proof -
    from d obtain d' where d': "d = Suc d'" "d' \<ge> D"
      by (cases d) auto
    have "recReturns (\<lambda>ns cs. evaluateCircuit d' ns cs ms None) ms ns"
      unfolding recReturns_def using D sub d'(2) unfolding returnsFrom_def by blast
    from evaluateBody_returns [OF this safe] d'(1) show ?thesis by simp
  qed
  then show ?thesis by blast
qed

lemma modules_return:
  assumes "acyclic (moduleRefs ms)" and safe: "\<forall>m\<in>set ms. safeModule m"
  shows "m \<in> set ms \<Longrightarrow> \<exists>D. returnsFrom ms m D"
proof -
  have w: "wf ((moduleRefs ms)\<inverse>)"
    using finite_moduleRefs assms(1) by (rule finite_acyclic_wf_converse)
  show "m \<in> set ms \<Longrightarrow> \<exists>D. returnsFrom ms m D"
  proof (induction m rule: wf_induct_rule [OF w])
    case (1 m)
    have "\<forall>m'\<in>refsOf ms (m_nodes m). \<exists>D. returnsFrom ms m' D"
    proof
      fix m' assume r: "m' \<in> refsOf ms (m_nodes m)"
      with "1.prems" have "(m', m) \<in> (moduleRefs ms)\<inverse>"
        by (simp add: moduleRefs_def)
      moreover from r refsOf_subset have "m' \<in> set ms" by blast
      ultimately show "\<exists>D. returnsFrom ms m' D" by (rule "1.IH")
    qed
    from evaluateCircuit_returns_step [OF this] obtain D where
      "\<forall>d\<ge>D. \<forall>ns cs prev. refsOf ms ns \<subseteq> refsOf ms (m_nodes m) \<and> safeCircuit ns cs \<longrightarrow>
           (\<exists>r. evaluateCircuit d ns cs ms prev = Inr r)"
      by blast
    moreover from safe "1.prems" have "safeCircuit (m_nodes m) (m_connections m)"
      by (simp add: safeModule_def)
    ultimately have "returnsFrom ms m D"
      unfolding returnsFrom_def by simp
    then show ?case by blast
  qed
qed

text \<open>
  The evaluator returns a result map with an entry for every node, from some depth of
  the call stack on, when no module definition of the library reaches itself through
  MODULE nodes and no identifier is the name of an inherited property.
\<close>

lemma evaluateCircuit_returns:
  assumes "acyclic (moduleRefs ms)" and "\<forall>m\<in>set ms. safeModule m"
    and "safeCircuit nodes conns"
  shows "\<exists>D. \<forall>d\<ge>D. \<forall>prev. \<exists>r. evaluateCircuit d nodes conns ms prev = Inr r"
proof -
  have "\<forall>m\<in>refsOf ms nodes. \<exists>D. returnsFrom ms m D"
    using modules_return [OF assms(1,2)] refsOf_subset by blast
  from evaluateCircuit_returns_step [OF this] assms(3) show ?thesis
    by blast
qed

lemma nested_value:
  "outputAt (evaluateCircuit (Suc (Suc (Suc 0))) nestedNodes nestedConns [bufferModule, outerModule] None) ''o''
     = Some [True]"
  by (simp add: nestedNodes_def nestedConns_def bufferModule_def outerModule_def moduleNode_def
        graph_defs eval_defs example_defs module_defs)

lemma nested_acyclic: "acyclic (moduleRefs [bufferModule, outerModule])"
proof -
  have "moduleRefs [bufferModule, outerModule] \<subseteq> {(outerModule, bufferModule)}"
    by (auto simp: moduleRefs_def refsOf_def bufferModule_def outerModule_def moduleNode_def
        findModule_def example_defs split: if_splits)
  moreover have "acyclic {(outerModule, bufferModule)}"
    by (simp add: acyclic_def trancl_insert bufferModule_def outerModule_def)
  ultimately show ?thesis
    by (rule acyclic_subset [rotated])
qed

section \<open>The graph indexer\<close>

lemma initEdges_fold:
  "fold (\<lambda>n m. m(n_id n \<mapsto> [])) nodes m0 k =
     (if k \<in> n_id ` set nodes then Some [] else m0 k)"
  by (induction nodes arbitrary: m0) auto

lemma initEdges_apply: "initEdges nodes k = (if k \<in> n_id ` set nodes then Some [] else None)"
  by (simp add: initEdges_def initEdges_fold)

lemma edgeInv_init: "edgeInv (n_id ` set nodes) [] (initEdges nodes, initEdges nodes)"
  by (auto simp: edgeInv_def initEdges_apply succs_def dom_def split: if_splits)

lemma set_setAdd [simp]: "set (setAdd x xs) = insert x (set xs)"
  by (auto simp: setAdd_def)

lemma distinct_setAdd [simp]: "distinct (setAdd x xs) = distinct xs"
  by (auto simp: setAdd_def)

lemma succs_upd [simp]: "succs (m(a \<mapsto> v)) b = (if b = a then v else succs m b)"
  by (simp add: succs_def)

lemma succs_Some: "m a = Some v \<Longrightarrow> succs m a = v"
  by (simp add: succs_def)

lemma edgeInv_step:
  assumes "edgeInv ids cs E" and "addEdge c E = Inr E'"
  shows "edgeInv ids (cs @ [c]) E'"
proof (cases "fromNodeId c \<in> ids \<and> toNodeId c \<in> ids")
  case False
  then have "fst E (fromNodeId c) = None \<or> snd E (toNodeId c) = None"
    using assms(1) by (auto simp: edgeInv_def dom_def)
  with assms(2) have "E' = E"
    by (auto simp: addEdge_def split: option.splits if_splits)
  with assms(1) False show ?thesis
    unfolding edgeInv_def by auto
next
  case True
  then obtain os "is" where o: "fst E (fromNodeId c) = Some os" and i: "snd E (toNodeId c) = Some is"
    using assms unfolding edgeInv_def dom_def by blast
  then have a: "E' = ((fst E)(fromNodeId c \<mapsto> setAdd (toNodeId c) os),
                      (snd E)(toNodeId c \<mapsto> setAdd (fromNodeId c) is))"
    using assms(2) by (simp add: addEdge_def hasProperty_def dom_def)
  have so: "succs (fst E) (fromNodeId c) = os" and si: "succs (snd E) (toNodeId c) = is"
    using o i by (simp_all add: succs_Some)
  from assms(1) have d: "dom (fst E) = ids" "dom (snd E) = ids"
    and d1: "\<And>p. distinct (succs (fst E) p)" and d2: "\<And>k. distinct (succs (snd E) k)"
    and e1: "\<And>p k. k \<in> set (succs (fst E) p) \<longleftrightarrow>
        p \<in> ids \<and> k \<in> ids \<and> (\<exists>c\<in>set cs. fromNodeId c = p \<and> toNodeId c = k)"
    and e2: "\<And>p k. p \<in> set (succs (snd E) k) \<longleftrightarrow>
        p \<in> ids \<and> k \<in> ids \<and> (\<exists>c\<in>set cs. fromNodeId c = p \<and> toNodeId c = k)"
    unfolding edgeInv_def by blast+
  show ?thesis
    unfolding edgeInv_def a fst_conv snd_conv
  proof (intro conjI allI)
    show "dom ((fst E)(fromNodeId c \<mapsto> setAdd (toNodeId c) os)) = ids"
      using d True by auto
    show "dom ((snd E)(toNodeId c \<mapsto> setAdd (fromNodeId c) is)) = ids"
      using d True by auto
    show "distinct (succs ((fst E)(fromNodeId c \<mapsto> setAdd (toNodeId c) os)) p)" for p
      using d1 [of p] d1 [of "fromNodeId c"] so by simp
    show "distinct (succs ((snd E)(toNodeId c \<mapsto> setAdd (fromNodeId c) is)) k)" for k
      using d2 [of k] d2 [of "toNodeId c"] si by simp
    show "k \<in> set (succs ((fst E)(fromNodeId c \<mapsto> setAdd (toNodeId c) os)) p) \<longleftrightarrow>
        p \<in> ids \<and> k \<in> ids \<and> (\<exists>c\<in>set (cs @ [c]). fromNodeId c = p \<and> toNodeId c = k)" for p k
      using e1 [of k p] e1 [of k "fromNodeId c"] so True by auto
    show "p \<in> set (succs ((snd E)(toNodeId c \<mapsto> setAdd (fromNodeId c) is)) k) \<longleftrightarrow>
        p \<in> ids \<and> k \<in> ids \<and> (\<exists>c\<in>set (cs @ [c]). fromNodeId c = p \<and> toNodeId c = k)" for p k
      using e2 [of p k] e2 [of p "toNodeId c"] si True by auto
  qed
qed

lemma edgeInv_addEdges:
  "edgeInv ids cs0 E \<Longrightarrow> addEdges cs E = Inr E' \<Longrightarrow> edgeInv ids (cs0 @ cs) E'"
proof (induction cs arbitrary: cs0 E)
  case Nil
  then show ?case by simp
next
  case (Cons c cs)
  from Cons.prems(2) obtain E1 where a: "addEdge c E = Inr E1" and b: "addEdges cs E1 = Inr E'"
    by (auto split: sum.splits)
  from Cons.IH [OF edgeInv_step [OF Cons.prems(1) a] b] show ?case by simp
qed

lemma edgeInv_buildEdges:
  "buildEdges nodes connections = Inr E \<Longrightarrow> edgeInv (n_id ` set nodes) connections E"
  unfolding buildEdges_def using edgeInv_addEdges [OF edgeInv_init, of connections nodes E] by simp

section \<open>Kahn's algorithm maintains its invariant\<close>

lemma relax_char:
  assumes "distinct xs" and "relax xs (deg, queue) = (deg', queue')"
  shows "(\<forall>k. map_of deg' k =
            (if k \<in> set xs then map_option (\<lambda>d. d - 1) (map_of deg k) else map_of deg k)) \<and>
         queue' = queue @ filter (\<lambda>nx. map_of deg nx = Some 1) xs"
  using assms
proof (induction xs arbitrary: deg queue)
  case Nil
  then show ?case by simp
next
  case (Cons nx rest)
  from Cons.prems(1) have dr: "distinct rest" and nr: "nx \<notin> set rest" by simp_all
  show ?case
  proof (cases "map_of deg nx")
    case None
    with Cons.prems(2) have "relax rest (deg, queue) = (deg', queue')" by simp
    from Cons.IH [OF dr this] None show ?thesis by auto
  next
    case (Some d)
    let ?deg1 = "AList.update nx (d - 1) deg"
    let ?q1 = "if d - 1 = 0 then queue @ [nx] else queue"
    from Cons.prems(2) Some have "relax rest (?deg1, ?q1) = (deg', queue')" by simp
    from Cons.IH [OF dr this]
    have m: "\<forall>k. map_of deg' k =
            (if k \<in> set rest then map_option (\<lambda>d. d - 1) (map_of ?deg1 k) else map_of ?deg1 k)"
      and q: "queue' = ?q1 @ filter (\<lambda>nx. map_of ?deg1 nx = Some 1) rest"
      by blast+
    have u: "map_of ?deg1 k = (if k = nx then Some (d - 1) else map_of deg k)" for k
      by (simp add: update_conv')
    have f: "filter (\<lambda>k. map_of ?deg1 k = Some 1) rest = filter (\<lambda>k. map_of deg k = Some 1) rest"
      using nr by (intro filter_cong) (auto simp: u)
    have "\<forall>k. map_of deg' k =
            (if k \<in> set (nx # rest) then map_option (\<lambda>d. d - 1) (map_of deg k) else map_of deg k)"
      using m u nr Some by auto
    moreover have "queue' = queue @ filter (\<lambda>k. map_of deg k = Some 1) (nx # rest)"
      using q f Some by auto
    ultimately show ?thesis by blast
  qed
qed

lemma predsFirst_snoc:
  assumes "predsFirst ie srt" and "set (succs ie x) \<subseteq> set srt"
  shows "predsFirst ie (srt @ [x])"
  unfolding predsFirst_def
proof (intro allI impI)
  fix ys k zs assume e: "srt @ [x] = ys @ k # zs"
  show "set (succs ie k) \<subseteq> set ys"
  proof (cases zs rule: rev_cases)
    case Nil
    with e assms(2) show ?thesis by simp
  next
    case (snoc zs' z)
    with e have "srt = ys @ k # zs'" by simp
    with assms(1) show ?thesis unfolding predsFirst_def by blast
  qed
qed

lemma kahnInv_step:
  assumes g: "edgeInv ids cs (oe, ie)"
    and inv: "kahnInv ids ie deg (x # queue) srt"
    and r: "relax (succs oe x) (deg, queue) = (deg', queue')"
  shows "kahnInv ids ie deg' queue' (srt @ [x])"
proof -
  let ?S = "succs oe x"
  let ?new = "filter (\<lambda>nx. map_of deg nx = Some 1) ?S"
  define P where "P k = set (succs ie k)" for k
  from g have dS: "distinct ?S"
    and SP: "\<And>k. k \<in> set ?S \<longleftrightarrow> x \<in> P k"
    and Sids: "\<And>k. k \<in> set ?S \<Longrightarrow> k \<in> ids"
    unfolding edgeInv_def P_def by auto
  from inv have dist: "distinct (srt @ x # queue)" and sub: "set (srt @ x # queue) \<subseteq> ids"
    and K2: "\<And>k. k \<in> ids \<Longrightarrow> map_of deg k = Some (int (card (P k - set srt)))"
    and K3: "\<And>k. k \<in> ids \<Longrightarrow> k \<in> set (srt @ x # queue) \<longleftrightarrow> P k \<subseteq> set srt"
    and K4: "predsFirst ie srt"
    unfolding kahnInv_def P_def by auto
  from dist have xs: "x \<notin> set srt" by simp
  from sub have xi: "x \<in> ids" by simp
  from K3 [OF xi] have Px: "P x \<subseteq> set srt" by simp
  have fin: "finite (P k - set srt)" for k
    unfolding P_def by simp
  from relax_char [OF dS r]
  have deg': "\<And>k. map_of deg' k =
            (if k \<in> set ?S then map_option (\<lambda>d. d - 1) (map_of deg k) else map_of deg k)"
    and q': "queue' = queue @ ?new"
    by blast+
  have A: "k \<notin> set (srt @ x # queue)" if "k \<in> set ?S" for k
  proof -
    from that have "x \<in> P k" by (simp add: SP)
    with xs have "\<not> P k \<subseteq> set srt" by blast
    with K3 [OF Sids [OF that]] show ?thesis by blast
  qed
  have one: "map_of deg k = Some 1 \<longleftrightarrow> P k - set srt = {x}" if "k \<in> set ?S" for k
  proof -
    from that have xin: "x \<in> P k - set srt" using SP xs by simp
    have "map_of deg k = Some 1 \<longleftrightarrow> card (P k - set srt) = 1"
      using K2 [OF Sids [OF that]] by simp
    also have "\<dots> \<longleftrightarrow> P k - set srt = {x}"
    proof
      assume "card (P k - set srt) = 1"
      then obtain y where "P k - set srt = {y}"
        by (rule card_1_singletonE)
      with xin show "P k - set srt = {x}" by auto
    next
      assume "P k - set srt = {x}"
      then show "card (P k - set srt) = 1" by simp
    qed
    finally show ?thesis .
  qed
  have k1: "distinct ((srt @ [x]) @ queue')"
    using dist dS A unfolding q' by auto
  have k1': "set ((srt @ [x]) @ queue') \<subseteq> ids"
    using sub Sids unfolding q' by auto
  have k2: "map_of deg' k = Some (int (card (P k - set (srt @ [x]))))" if "k \<in> ids" for k
  proof (cases "k \<in> set ?S")
    case True
    then have xin: "x \<in> P k - set srt" using SP xs by simp
    have "P k - set (srt @ [x]) = (P k - set srt) - {x}" by auto
    then have "card (P k - set (srt @ [x])) = card (P k - set srt) - 1"
      using xin fin by simp
    moreover have "card (P k - set srt) \<ge> 1"
      using xin fin by (metis One_nat_def Suc_leI card_gt_0_iff empty_iff)
    ultimately have "int (card (P k - set (srt @ [x]))) = int (card (P k - set srt)) - 1"
      by simp
    with deg' [of k] True K2 [OF that] show ?thesis by simp
  next
    case False
    then have "x \<notin> P k" by (simp add: SP)
    then have "P k - set (srt @ [x]) = P k - set srt" by auto
    with deg' [of k] False K2 [OF that] show ?thesis by simp
  qed
  have k3: "k \<in> set ((srt @ [x]) @ queue') \<longleftrightarrow> P k \<subseteq> set (srt @ [x])" if "k \<in> ids" for k
  proof
    assume "k \<in> set ((srt @ [x]) @ queue')"
    then consider "k \<in> set (srt @ x # queue)" | "k \<in> set ?new"
      unfolding q' by auto
    then show "P k \<subseteq> set (srt @ [x])"
    proof cases
      case 1
      with K3 [OF that] show ?thesis by auto
    next
      case 2
      then have "k \<in> set ?S" "map_of deg k = Some 1" by auto
      with one have "P k - set srt = {x}" by blast
      then show ?thesis by auto
    qed
  next
    assume a: "P k \<subseteq> set (srt @ [x])"
    show "k \<in> set ((srt @ [x]) @ queue')"
    proof (cases "P k \<subseteq> set srt")
      case True
      with K3 [OF that] show ?thesis unfolding q' by auto
    next
      case False
      with a have "x \<in> P k" and "P k - set srt = {x}" by auto
      then have "k \<in> set ?S" and "map_of deg k = Some 1"
        using SP one by blast+
      then show ?thesis unfolding q' by simp
    qed
  qed
  have k4: "predsFirst ie (srt @ [x])"
    using K4 Px unfolding P_def by (rule predsFirst_snoc)
  show ?thesis
    unfolding kahnInv_def using k1 k1' k2 k3 k4 unfolding P_def by blast
qed

lemma kahnLoop_inv:
  assumes "edgeInv ids cs (oe, ie)" and "kahnInv ids ie deg queue srt"
  shows "\<exists>deg'. kahnInv ids ie deg' [] (kahnLoop oe deg queue srt)"
  using assms
proof (induction oe deg queue srt rule: kahnLoop.induct)
  case (1 outEdges deg sortedIds)
  then show ?case by auto
next
  case (2 outEdges deg x queue sortedIds)
  obtain deg' queue' where r: "relax (succs outEdges x) (deg, queue) = (deg', queue')"
    by (cases "relax (succs outEdges x) (deg, queue)")
  from kahnInv_step [OF "2.prems"(1,2) r]
  have "kahnInv ids ie deg' queue' (sortedIds @ [x])" .
  from "2.IH" [OF r [symmetric] "2.prems"(1) this] r show ?case by simp
qed

lemma map_of_initInDegree_aux:
  "map_of (fold (\<lambda>n deg. AList.update (n_id n) (f (n_id n)) deg) nodes acc) k =
     (if k \<in> n_id ` set nodes then Some (f k) else map_of acc k)"
proof (induction nodes arbitrary: acc)
  case Nil
  show ?case by simp
next
  case (Cons n nodes)
  let ?acc = "AList.update (n_id n) (f (n_id n)) acc"
  have u: "map_of ?acc k = (if k = n_id n then Some (f k) else map_of acc k)"
    by (simp add: update_conv')
  have "map_of (fold (\<lambda>n deg. AList.update (n_id n) (f (n_id n)) deg) (n # nodes) acc) k
          = map_of (fold (\<lambda>n deg. AList.update (n_id n) (f (n_id n)) deg) nodes ?acc) k"
    by simp
  also have "\<dots> = (if k \<in> n_id ` set nodes then Some (f k) else map_of ?acc k)"
    by (rule Cons.IH)
  also have "\<dots> = (if k \<in> n_id ` set (n # nodes) then Some (f k) else map_of acc k)"
    unfolding u by auto
  finally show ?case .
qed

lemma map_of_initInDegree:
  "map_of (initInDegree nodes ie) k =
     (if k \<in> n_id ` set nodes then Some (int (length (succs ie k))) else None)"
proof -
  have "initInDegree nodes ie =
          fold (\<lambda>n deg. AList.update (n_id n) ((\<lambda>k. int (length (succs ie k))) (n_id n)) deg) nodes []"
    unfolding initInDegree_def succs_def
    by (intro arg_cong [where f = "\<lambda>g. fold g nodes []"] ext) (simp split: option.splits)
  with map_of_initInDegree_aux [of "\<lambda>k. int (length (succs ie k))" nodes "[]" k]
  show ?thesis by simp
qed

lemma kahnInv_init:
  assumes g: "edgeInv (n_id ` set nodes) cs (oe, ie)" and d: "distinct (map n_id nodes)"
  shows "kahnInv (n_id ` set nodes) ie (initInDegree nodes ie)
           (initQueue nodes (initInDegree nodes ie)) []"
proof -
  let ?deg = "initInDegree nodes ie"
  from g have di: "\<And>k. distinct (succs ie k)"
    unfolding edgeInv_def by simp
  have q: "set (initQueue nodes ?deg) = {k \<in> n_id ` set nodes. succs ie k = []}"
    by (auto simp: initQueue_def map_of_initInDegree)
  have k1: "distinct ([] @ initQueue nodes ?deg)"
    unfolding initQueue_def using d by (simp add: distinct_map_filter)
  have k1': "set ([] @ initQueue nodes ?deg) \<subseteq> n_id ` set nodes"
    using q by simp
  have k2: "\<forall>k\<in>n_id ` set nodes.
              map_of ?deg k = Some (int (card (set (succs ie k) - set [])))"
  proof
    fix k assume "k \<in> n_id ` set nodes"
    then show "map_of ?deg k = Some (int (card (set (succs ie k) - set [])))"
      using di [of k] by (simp add: map_of_initInDegree distinct_card)
  qed
  have k3: "\<forall>k\<in>n_id ` set nodes.
              k \<in> set ([] @ initQueue nodes ?deg) \<longleftrightarrow> set (succs ie k) \<subseteq> set []"
  proof
    fix k assume "k \<in> n_id ` set nodes"
    then show "k \<in> set ([] @ initQueue nodes ?deg) \<longleftrightarrow> set (succs ie k) \<subseteq> set []"
      using q by simp
  qed
  have k4: "predsFirst ie []"
    by (simp add: predsFirst_def)
  show ?thesis
    unfolding kahnInv_def by (intro conjI k1 k1' k2 k3 k4)
qed

lemma collectCycle_char:
  assumes "distinct (map n_id nodes)"
  shows "collectCycle nodes (s0, c0) =
           (s0 @ filter (\<lambda>k. k \<notin> set s0) (map n_id nodes),
            c0 @ filter (\<lambda>k. k \<notin> set s0) (map n_id nodes))"
  using assms
proof (induction nodes arbitrary: s0 c0)
  case Nil
  then show ?case by (simp add: collectCycle_def)
next
  case (Cons n nodes)
  from Cons.prems have d: "distinct (map n_id nodes)" and nn: "n_id n \<notin> n_id ` set nodes"
    by simp_all
  have step: "collectCycle (n # nodes) (s0, c0) =
          collectCycle nodes (if n_id n \<notin> set s0 then (s0 @ [n_id n], c0 @ [n_id n]) else (s0, c0))"
    by (simp add: collectCycle_def)
  show ?case
  proof (cases "n_id n \<in> set s0")
    case True
    with step Cons.IH [OF d, of s0 c0] show ?thesis by simp
  next
    case False
    have "filter (\<lambda>k. k \<notin> set (s0 @ [n_id n])) (map n_id nodes)
            = filter (\<lambda>k. k \<notin> set s0) (map n_id nodes)"
      using nn by (intro filter_cong) (auto simp: image_iff)
    with False step Cons.IH [OF d, of "s0 @ [n_id n]" "c0 @ [n_id n]"] show ?thesis by simp
  qed
qed

section \<open>Evaluation depends on the node list through identifiers and lookup only\<close>

lemma initEdges_ids: "initEdges ns = fold (\<lambda>k m. m(k \<mapsto> [])) (map n_id ns) Map.empty"
  by (simp add: initEdges_def fold_map comp_def)

lemma initInDegree_ids:
  "initInDegree ns ie =
     fold (\<lambda>k deg. AList.update k (case ie k of Some s \<Rightarrow> int (length s) | None \<Rightarrow> 0) deg)
       (map n_id ns) []"
  by (simp add: initInDegree_def fold_map comp_def)

lemma initQueue_ids: "initQueue ns deg = filter (\<lambda>k. map_of deg k = Some 0) (map n_id ns)"
  by (simp add: initQueue_def filter_map comp_def)

lemma collectCycle_ids:
  "collectCycle ns st =
     fold (\<lambda>k (sortedIds, cyc).
             if k \<notin> set sortedIds then (sortedIds @ [k], cyc @ [k]) else (sortedIds, cyc))
       (map n_id ns) st"
  by (simp add: collectCycle_def fold_map comp_def)

lemma topoOrder_cong:
  assumes "map n_id ns = map n_id ns'"
  shows "topoOrder ns cs = topoOrder ns' cs"
  unfolding topoOrder_def buildEdges_def initEdges_ids initInDegree_ids initQueue_ids
    collectCycle_ids assms ..

lemma evaluateNode_cong:
  assumes "\<And>k. findNode ns k = findNode ns' k"
  shows "evaluateNode rec ms ns = evaluateNode rec ms ns'"
  by (intro ext) (simp add: evaluateNode_def assms)

lemma evaluateCircuit_cong:
  assumes "map n_id ns = map n_id ns'" and "\<And>k. findNode ns k = findNode ns' k"
  shows "evaluateCircuit depth ns cs ms prev = evaluateCircuit depth ns' cs ms prev"
proof (cases depth)
  case 0
  then show ?thesis by simp
next
  case (Suc d)
  have e: "evaluateNode R ms ns = evaluateNode R ms ns'" for R
    by (rule evaluateNode_cong) (rule assms(2))
  have "evaluateBody R ns cs ms prev = evaluateBody R ns' cs ms prev" for R
    unfolding evaluateBody_def runPasses_def e topoOrder_cong [OF assms(1)] ..
  with Suc show ?thesis by simp
qed

lemma findNode_map:
  assumes "\<And>n. n_id (f n) = n_id n"
  shows "findNode (map f ns) k = map_option f (findNode ns k)"
  unfolding findNode_def by (induction ns) (simp_all add: assms)

lemma findNode_SomeD:
  "findNode ns k = Some n \<Longrightarrow> n_id n = k \<and> findNode ns (n_id n) = Some n"
  unfolding findNode_def by (induction ns) (auto split: if_splits)

lemma n_id_specInject [simp]: "n_id (specInject slices n) = n_id n"
  by (simp add: specInject_def split: option.splits)

section \<open>The source's module expander against the specification's\<close>

lemma map_upt_split:
  "map f [a..<a + (b + c)] = map f [a..<a + b] @ map f [a + b..<a + b + c]"
proof -
  have "[a..<(a + b) + c] = [a..<a + b] @ [a + b..<(a + b) + c]"
    by (rule upt_add_eq_append) simp
  then have "map f [a..<(a + b) + c] = map f [a..<a + b] @ map f [a + b..<(a + b) + c]"
    by (simp only: map_append)
  then show ?thesis
    by (simp only: add.assoc)
qed

lemma gatherInputs_char:
  "gatherInputs ns iv ts (miv, idx) =
     (miv @ map (nthOrFalse iv) [idx..<idx + sum_list (map (slots1 ns) ts)],
      idx + sum_list (map (slots1 ns) ts))"
proof (induction ts arbitrary: miv idx)
  case Nil
  show ?case by simp
next
  case (Cons t ts)
  let ?S = "sum_list (map (slots1 ns) ts)"
  show ?case
  proof (cases "findNode ns t")
    case None
    then have "slots1 ns t = 0" by (simp add: slots1_def)
    moreover from None have "gatherInputs ns iv (t # ts) (miv, idx) = gatherInputs ns iv ts (miv, idx)"
      by simp
    ultimately show ?thesis by (simp add: Cons.IH)
  next
    case (Some n)
    consider (inp) "n_type n = INPUT" | (bar) "n_type n \<noteq> INPUT" "n_type n = PINBAR"
      | (oth) "n_type n \<noteq> INPUT" "n_type n \<noteq> PINBAR"
      by blast
    then show ?thesis
    proof cases
      case inp
      with Some have s: "slots1 ns t = 1" by (simp add: slots1_def)
      from Some inp have "gatherInputs ns iv (t # ts) (miv, idx)
          = gatherInputs ns iv ts (miv @ [nthOrFalse iv idx], idx + 1)"
        by simp
      also have "\<dots> = ((miv @ [nthOrFalse iv idx]) @ map (nthOrFalse iv) [idx + 1..<idx + 1 + ?S],
                          idx + 1 + ?S)"
        by (rule Cons.IH)
      also have "(miv @ [nthOrFalse iv idx]) @ map (nthOrFalse iv) [idx + 1..<idx + 1 + ?S]
          = miv @ map (nthOrFalse iv) [idx..<idx + (1 + ?S)]"
        unfolding map_upt_split [of _ idx 1 ?S] by simp
      finally show ?thesis
        by (simp add: s add.assoc)
    next
      case bar
      with Some have s: "slots1 ns t = n_outputCount n" by (simp add: slots1_def)
      let ?c = "n_outputCount n"
      from Some bar have "gatherInputs ns iv (t # ts) (miv, idx)
          = gatherInputs ns iv ts (miv @ map (nthOrFalse iv) [idx..<idx + ?c], idx + ?c)"
        by simp
      also have "\<dots> = ((miv @ map (nthOrFalse iv) [idx..<idx + ?c])
                            @ map (nthOrFalse iv) [idx + ?c..<idx + ?c + ?S],
                          idx + ?c + ?S)"
        by (rule Cons.IH)
      also have "(miv @ map (nthOrFalse iv) [idx..<idx + ?c])
                            @ map (nthOrFalse iv) [idx + ?c..<idx + ?c + ?S]
          = miv @ map (nthOrFalse iv) [idx..<idx + (?c + ?S)]"
        unfolding map_upt_split [of _ idx ?c ?S] by simp
      finally show ?thesis
        by (simp add: s add.assoc)
    next
      case oth
      with Some have "slots1 ns t = 0" by (simp add: slots1_def)
      moreover from Some oth
      have "gatherInputs ns iv (t # ts) (miv, idx) = gatherInputs ns iv ts (miv, idx)"
        by simp
      ultimately show ?thesis by (simp add: Cons.IH)
    qed
  qed
qed

lemma actualIdx_char:
  assumes "idx \<le> length (inputNodeIds m)"
  shows "actualIdx m idx = sum_list (map (slots2 (m_nodes m)) (take idx (inputNodeIds m)))"
proof -
  have "map (\<lambda>k. slots2 (m_nodes m) (inputNodeIds m ! k)) [0..<idx]
          = map (slots2 (m_nodes m)) (take idx (inputNodeIds m))"
    using assms by (simp add: list_eq_iff_nth_eq)
  then show ?thesis
    unfolding actualIdx_def slots2_def by simp
qed

lemma map_of_specSlices:
  "map_of (specSlices ns ext off ts) t =
     (if t \<in> set ts \<and> (\<exists>n. findNode ns t = Some n \<and> isInputTerminal n) then
        Some (map (nthOrFalse ext)
               [off + sum_list (map (slotsS ns) (takeWhile (\<lambda>y. y \<noteq> t) ts))
                ..<off + sum_list (map (slotsS ns) (takeWhile (\<lambda>y. y \<noteq> t) ts)) + slotsS ns t])
      else None)"
proof (induction ts arbitrary: off)
  case Nil
  show ?case by simp
next
  case (Cons u ts)
  show ?case
  proof (cases "\<exists>n. findNode ns u = Some n \<and> isInputTerminal n")
    case False
    then have sk: "specSlices ns ext off (u # ts) = specSlices ns ext off ts"
      by (cases "findNode ns u") auto
    from False have z: "slotsS ns u = 0"
      by (cases "findNode ns u") (auto simp: slotsS_def)
    show ?thesis
    proof (cases "u = t")
      case True
      with False show ?thesis
        unfolding sk Cons.IH by auto
    next
      case neq: False
      then show ?thesis
        unfolding sk Cons.IH using z by auto
    qed
  next
    case True
    then obtain n where n: "findNode ns u = Some n" "isInputTerminal n" by blast
    then have w: "slotsS ns u = terminalWidth n"
      by (simp add: slotsS_def)
    from n have sk: "specSlices ns ext off (u # ts) =
        (u, map (nthOrFalse ext) [off..<off + terminalWidth n])
          # specSlices ns ext (off + terminalWidth n) ts"
      by simp
    show ?thesis
    proof (cases "u = t")
      case eq: True
      with n w show ?thesis
        unfolding sk by auto
    next
      case neq: False
      then show ?thesis
        unfolding sk using w by (simp add: Cons.IH add.assoc)
    qed
  qed
qed

lemma nthOrFalse_padded:
  "nthOrFalse (map (nthOrFalse iv) [0..<T]) j = (if j < T then nthOrFalse iv j else False)"
  by (simp add: nthOrFalse_def)

lemma map_upt_shift: "map f [a..<a + c] = map (\<lambda>pi. f (a + pi)) [0..<c]"
  by (simp add: list_eq_iff_nth_eq)

lemma indexOf_member: "t \<in> set ts \<Longrightarrow> indexOf ts t = Some (length (takeWhile (\<lambda>y. y \<noteq> t) ts))"
  by (simp add: indexOf_def)

lemma sum_list_split_at:
  fixes f :: "string \<Rightarrow> nat"
  assumes "t \<in> set ts"
  shows "sum_list (map f (takeWhile (\<lambda>y. y \<noteq> t) ts)) + f t \<le> sum_list (map f ts)"
proof -
  from assms have "dropWhile (\<lambda>y. y \<noteq> t) ts \<noteq> []" by simp
  then obtain rest where d: "dropWhile (\<lambda>y. y \<noteq> t) ts = t # rest"
    using hd_dropWhile [of "\<lambda>y. y \<noteq> t" ts] by (cases "dropWhile (\<lambda>y. y \<noteq> t) ts") auto
  have "ts = takeWhile (\<lambda>y. y \<noteq> t) ts @ dropWhile (\<lambda>y. y \<noteq> t) ts" by simp
  then have "sum_list (map f ts)
      = sum_list (map f (takeWhile (\<lambda>y. y \<noteq> t) ts)) + sum_list (map f (t # rest))"
    unfolding d [symmetric] by (metis map_append sum_list_append)
  then show ?thesis by simp
qed

lemma terminal_slots:
  assumes "findNode ns t = Some n" and "isInputTerminal n"
  shows "slots1 ns t = terminalWidth n" and "slots2 ns t = terminalWidth n"
    and "slotsS ns t = terminalWidth n"
  using assms by (auto simp: slots1_def slots2_def slotsS_def isInputTerminal_def terminalWidth_def)

lemma internalNode_refines:
  assumes wf: "namesInputTerminals m" and fn: "findNode (m_nodes m) (n_id n) = Some n"
  shows "internalNode m (fst (gatherInputs (m_nodes m) iv (inputNodeIds m) ([], 0))) n
           = specInject (specSlices (m_nodes m) iv 0 (inputNodeIds m)) n"
proof -
  let ?ns = "m_nodes m" and ?ts = "inputNodeIds m" and ?t = "n_id n"
  let ?T = "sum_list (map (slotsS ?ns) ?ts)"
  let ?pre = "takeWhile (\<lambda>y. y \<noteq> ?t) ?ts"
  let ?a = "sum_list (map (slotsS ?ns) ?pre)"
  from wf have trm: "\<And>t. t \<in> set ?ts \<Longrightarrow> \<exists>n. findNode ?ns t = Some n \<and> isInputTerminal n"
    unfolding namesInputTerminals_def by blast
  have s1: "slots1 ?ns t = slotsS ?ns t" and s2: "slots2 ?ns t = slotsS ?ns t" if "t \<in> set ?ts" for t
    using trm [OF that] terminal_slots by (metis, metis)
  have "map (slots1 ?ns) ?ts = map (slotsS ?ns) ?ts"
    by (rule map_cong) (simp_all add: s1)
  then have "sum_list (map (slots1 ?ns) ?ts) = ?T"
    by (rule arg_cong)
  then have miv: "fst (gatherInputs ?ns iv ?ts ([], 0)) = map (nthOrFalse iv) [0..<?T]"
    by (simp add: gatherInputs_char)
  show ?thesis
  proof (cases "?t \<in> set ?ts")
    case False
    then have "indexOf ?ts ?t = None" by (simp add: indexOf_def)
    moreover from False have "map_of (specSlices ?ns iv 0 ?ts) ?t = None"
      by (simp add: map_of_specSlices)
    ultimately show ?thesis
      by (simp add: internalNode_def specInject_def)
  next
    case True
    from trm [OF True] fn have it: "isInputTerminal n" by simp
    then have w: "slotsS ?ns ?t = terminalWidth n"
      using fn terminal_slots by blast
    have idx: "indexOf ?ts ?t = Some (length ?pre)"
      using True by (rule indexOf_member)
    have "length ?pre \<le> length ?ts"
      by (rule length_takeWhile_le)
    then have "actualIdx m (length ?pre) = sum_list (map (slots2 ?ns) (take (length ?pre) ?ts))"
      by (rule actualIdx_char)
    also have "take (length ?pre) ?ts = ?pre"
      by (simp add: takeWhile_eq_take [symmetric])
    also have "map (slots2 ?ns) ?pre = map (slotsS ?ns) ?pre"
      by (rule map_cong) (auto simp: s2 dest: set_takeWhileD)
    finally have a: "actualIdx m (length ?pre) = ?a" .
    have bound: "?a + terminalWidth n \<le> ?T"
      using sum_list_split_at [OF True, of "slotsS ?ns"] w by simp
    have sl: "map_of (specSlices ?ns iv 0 ?ts) ?t
                = Some (map (nthOrFalse iv) [?a..<?a + terminalWidth n])"
      using True fn it w by (simp add: map_of_specSlices)
    show ?thesis
    proof (cases "n_type n = INPUT")
      case inp: True
      then have "terminalWidth n = 1" by (simp add: terminalWidth_def)
      with bound have "?a < ?T" by simp
      then have "nthOrFalse (map (nthOrFalse iv) [0..<?T]) ?a = nthOrFalse iv ?a"
        by (simp add: nthOrFalse_padded)
      moreover have "nthOrFalse (map (nthOrFalse iv) [?a..<?a + 1]) 0 = nthOrFalse iv ?a"
        by (simp add: nthOrFalse_def)
      ultimately show ?thesis
        using inp idx a sl \<open>terminalWidth n = 1\<close>
        by (simp add: internalNode_def specInject_def miv)
    next
      case ninp: False
      with it have bar: "n_type n = PINBAR" "pinBarModeOf n = ModeInput"
        by (simp_all add: isInputTerminal_def)
      from ninp have tw: "terminalWidth n = n_outputCount n"
        by (simp add: terminalWidth_def)
      have "map (\<lambda>pi. nthOrFalse (map (nthOrFalse iv) [0..<?T]) (?a + pi)) [0..<n_outputCount n]
              = map (\<lambda>pi. nthOrFalse iv (?a + pi)) [0..<n_outputCount n]"
        using bound tw by (intro map_cong refl) (simp add: nthOrFalse_padded)
      also have "\<dots> = map (nthOrFalse iv) [?a..<?a + n_outputCount n]"
        by (rule map_upt_shift [symmetric])
      finally show ?thesis
        using ninp bar idx a sl tw
        by (simp add: internalNode_def specInject_def miv)
    qed
  qed
qed

lemma moduleResult_refines:
  assumes "namesOutputTerminals m"
  shows "moduleResult m r = concat (map (specOutputBits m r) (outputNodeIds m))"
proof -
  have "(case findNode (m_nodes m) t of
          Some outNode \<Rightarrow>
            if n_type outNode = PINBAR \<and> n_pinBarMode outNode = Some ModeOutput then
              map (\<lambda>pi. case findConn (m_connections m) t pi of
                          Some conn \<Rightarrow> readPin r (fromNodeId conn) (fromPinIndex conn)
                        | None \<Rightarrow> False)
                [0..<n_inputCount outNode]
            else [readPin r t 0]
        | None \<Rightarrow> [readPin r t 0]) = specOutputBits m r t"
    if "t \<in> set (outputNodeIds m)" for t
  proof -
    from assms that obtain n where n: "findNode (m_nodes m) t = Some n" "isOutputTerminal n"
      unfolding namesOutputTerminals_def by blast
    then show ?thesis
      by (auto simp: specOutputBits_def isOutputTerminal_def isOutputBar_def tracedBits_def)
  qed
  then show ?thesis
    unfolding moduleResult_def by (intro arg_cong [where f = concat] map_cong refl)
qed

lemma workingCopy_refines:
  assumes "namesInputTerminals m"
  shows "standalone depth modules (internalNodes m ext) cs
           = standalone depth modules (specWorkingCopy m ext) cs"
  unfolding standalone_def
proof (rule evaluateCircuit_cong)
  show "map n_id (internalNodes m ext) = map n_id (specWorkingCopy m ext)"
    by (simp add: internalNodes_def specWorkingCopy_def)
next
  fix k
  let ?miv = "fst (gatherInputs (m_nodes m) ext (inputNodeIds m) ([], 0))"
  let ?sl = "specSlices (m_nodes m) ext 0 (inputNodeIds m)"
  have "map_option (internalNode m ?miv) (findNode (m_nodes m) k)
          = map_option (specInject ?sl) (findNode (m_nodes m) k)"
  proof (cases "findNode (m_nodes m) k")
    case None
    then show ?thesis by simp
  next
    case (Some n)
    then have "findNode (m_nodes m) (n_id n) = Some n"
      by (simp add: findNode_SomeD)
    from internalNode_refines [OF assms this, of ext] Some show ?thesis by simp
  qed
  then show "findNode (internalNodes m ext) k = findNode (specWorkingCopy m ext) k"
    by (simp add: internalNodes_def specWorkingCopy_def findNode_map)
qed

lemma module_refines:
  assumes "namesInputTerminals m" and "namesOutputTerminals m"
  shows "(case standalone depth modules (internalNodes m ext) (m_connections m) of
            Inr internalOutputs \<Rightarrow> Inr (moduleResult m internalOutputs)
          | Inl e \<Rightarrow> Inl e) = specModule depth modules m ext"
  unfolding specModule_def workingCopy_refines [OF assms(1)]
  by (simp add: moduleResult_refines [OF assms(2)] split: sum.splits)

section \<open>The result map is a fixed point of the node rules\<close>

lemma srcsBefore_tail: "srcsBefore conns cs (x # xs) \<Longrightarrow> srcsBefore conns cs xs"
  unfolding srcsBefore_def by (metis append_Cons)

lemma srcsBefore_head:
  assumes "srcsBefore conns cs (x # xs)" and "x \<notin> cs"
    and "c \<in> set conns" and "toNodeId c = x" and "fromNodeId c \<notin> cs"
  shows "fromNodeId c \<notin> set (x # xs)"
  using assms unfolding srcsBefore_def by (metis append_Nil)

lemma findConn_SomeD:
  "findConn conns k i = Some c \<Longrightarrow> c \<in> set conns \<and> toNodeId c = k"
  unfolding findConn_def by (auto simp: find_Some_iff)

lemma inputValues_agree:
  assumes "\<And>f. f \<in> cs \<Longrightarrow> frz f = frz' f"
    and "\<And>c. c \<in> set conns \<Longrightarrow> toNodeId c = k \<Longrightarrow> fromNodeId c \<notin> cs \<Longrightarrow>
           src (fromNodeId c) = src' (fromNodeId c)"
  shows "inputValues conns cs frz src k n = inputValues conns cs frz' src' k n"
  unfolding inputValues_def
proof (intro map_cong refl)
  fix i
  show "(case findConn conns k i of
           None \<Rightarrow> False
         | Some conn \<Rightarrow> readPin (if fromNodeId conn \<in> cs then frz else src)
                        (fromNodeId conn) (fromPinIndex conn)) =
        (case findConn conns k i of
           None \<Rightarrow> False
         | Some conn \<Rightarrow> readPin (if fromNodeId conn \<in> cs then frz' else src')
                        (fromNodeId conn) (fromPinIndex conn))"
  proof (cases "findConn conns k i")
    case None
    then show ?thesis by simp
  next
    case (Some c)
    from findConn_SomeD [OF Some] assms(1) [of "fromNodeId c"] assms(2) [of c] Some
    show ?thesis by (simp add: readPin_def)
  qed
qed

lemma pass1_fixpoint:
  assumes "pass1 (evaluateNode rec ms nodes conns cs seed) cs xs out = Inr out'"
    and "distinct xs" and "set xs \<subseteq> n_id ` set nodes" and "srcsBefore conns cs xs"
  shows "(\<forall>k\<in>set xs - cs. \<exists>node v. findNode nodes k = Some node \<and> out' k = Some v \<and>
            nodeOutput rec ms node (inputValues conns cs seed out' k (n_inputCount node)) = Inr v)
         \<and> (\<forall>j. j \<notin> set xs - cs \<longrightarrow> out' j = out j)"
  using assms
proof (induction xs arbitrary: out)
  case Nil
  then show ?case by simp
next
  case (Cons x xs)
  let ?ev = "evaluateNode rec ms nodes conns cs seed"
  from Cons.prems have d: "distinct xs" and nx: "x \<notin> set xs"
    and sub: "set xs \<subseteq> n_id ` set nodes" and xi: "x \<in> n_id ` set nodes"
    and sb: "srcsBefore conns cs xs"
    by (auto dest: srcsBefore_tail)
  show ?case
  proof (cases "x \<in> cs")
    case True
    with Cons.prems(1) have p: "pass1 ?ev cs xs out = Inr out'" by simp
    from Cons.IH [OF p d sub sb] True show ?thesis by auto
  next
    case False
    with Cons.prems(1) obtain out1 where e: "?ev x False out = Inr out1"
      and p: "pass1 ?ev cs xs out1 = Inr out'"
      by (auto split: sum.splits)
    from xi obtain node where fn: "findNode nodes x = Some node"
      using findNode_Some_iff by blast
    from evaluateNode_Some [OF e fn] obtain v where
      o1: "out1 = out(x \<mapsto> v)"
      and nv: "nodeOutput rec ms node (inputValues conns cs seed out x (n_inputCount node)) = Inr v"
      by auto
    from Cons.IH [OF p d sub sb] have
      ih: "\<forall>k\<in>set xs - cs. \<exists>node v. findNode nodes k = Some node \<and> out' k = Some v \<and>
            nodeOutput rec ms node (inputValues conns cs seed out' k (n_inputCount node)) = Inr v"
      and fr: "\<And>j. j \<notin> set xs - cs \<Longrightarrow> out' j = out1 j"
      by blast+
    have ox: "out' x = Some v"
      using fr [of x] nx o1 by simp
    have "inputValues conns cs seed out' x (n_inputCount node)
            = inputValues conns cs seed out x (n_inputCount node)"
    proof (rule inputValues_agree)
      fix c assume c: "c \<in> set conns" "toNodeId c = x" "fromNodeId c \<notin> cs"
      from srcsBefore_head [OF Cons.prems(4) False c] have "fromNodeId c \<notin> set (x # xs)" .
      then show "out' (fromNodeId c) = out (fromNodeId c)"
        using fr [of "fromNodeId c"] o1 by simp
    qed simp
    with nv have nx': "nodeOutput rec ms node
        (inputValues conns cs seed out' x (n_inputCount node)) = Inr v"
      by simp
    show ?thesis
    proof (intro conjI ballI allI impI)
      fix k assume k: "k \<in> set (x # xs) - cs"
      show "\<exists>node v. findNode nodes k = Some node \<and> out' k = Some v \<and>
            nodeOutput rec ms node (inputValues conns cs seed out' k (n_inputCount node)) = Inr v"
      proof (cases "k = x")
        case True
        with fn ox nx' show ?thesis by blast
      next
        case False
        with k have "k \<in> set xs - cs" by simp
        with ih show ?thesis by blast
      qed
    next
      fix j assume j: "j \<notin> set (x # xs) - cs"
      with False have "j \<noteq> x" by auto
      with j fr [of j] o1 show "out' j = out j" by simp
    qed
  qed
qed

lemma refreshFrozen_apply:
  "refreshFrozen cs s out frz j =
     (if j \<in> set s \<and> j \<notin> cs then (case out j of Some v \<Rightarrow> Some v | None \<Rightarrow> frz j) else frz j)"
  unfolding refreshFrozen_def
  by (induction s arbitrary: frz) (auto split: option.splits)

lemma seedOutputs_apply:
  assumes "seedOutputs prev c = Inr seed"
  shows "seed j = (if j \<in> set c then (case prev of None \<Rightarrow> None | Some p \<Rightarrow> p j) else None)"
proof (cases prev)
  case None
  with assms show ?thesis by (auto simp: seedOutputs_def)
next
  case (Some p)
  have "fold (\<lambda>nodeId out. case p nodeId of Some v \<Rightarrow> out(nodeId \<mapsto> v) | None \<Rightarrow> out) c acc j
          = (if j \<in> set c then (case p j of Some v \<Rightarrow> Some v | None \<Rightarrow> acc j) else acc j)" for acc
    by (induction c arbitrary: acc) (auto split: option.splits)
  with assms Some show ?thesis
    by (auto simp: seedOutputs_def split: if_splits option.splits)
qed

lemma runPasses_fixpoint:
  assumes r: "runPasses rec nodes conns ms prev s c = Inr r"
    and ds: "distinct s" and s: "set s = n_id ` set nodes" and c: "set c \<subseteq> n_id ` set nodes"
    and sb: "srcsBefore conns (set c) s"
    and fn: "findNode nodes k = Some node"
  shows "\<exists>seed v. seedOutputs prev c = Inr seed \<and> r k = Some v \<and>
           nodeOutput rec ms node (inputValues conns (set c) seed r k (n_inputCount node)) = Inr v"
proof -
  from r obtain seed out1 where
    sd: "seedOutputs prev c = Inr seed"
    and p1: "pass1 (evaluateNode rec ms nodes conns (set c) seed) (set c) s seed = Inr out1"
    and p2: "pass2 (evaluateNode rec ms nodes conns (set c)
                      (refreshFrozen (set c) s out1 seed)) c out1 = Inr r"
    by (auto simp: runPasses_def split: sum.splits)
  let ?frz = "refreshFrozen (set c) s out1 seed"
  from s have sub: "set s \<subseteq> n_id ` set nodes" by simp
  from pass1_fixpoint [OF p1 ds sub sb] have
    a: "\<forall>k\<in>set s - set c. \<exists>node v. findNode nodes k = Some node \<and> out1 k = Some v \<and>
          nodeOutput rec ms node (inputValues conns (set c) seed out1 k (n_inputCount node)) = Inr v"
    and f1: "\<And>j. j \<notin> set s - set c \<Longrightarrow> out1 j = seed j"
    by blast+
  have e2: "(\<forall>k\<in>set c. \<exists>v. r k = Some v \<and>
               (\<exists>node. findNode nodes k = Some node \<and>
                  nodeOutput rec ms node
                    (inputValues conns (set c) ?frz ?frz k (n_inputCount node)) = Inr v))
            \<and> (\<forall>k. k \<notin> set c \<longrightarrow> r k = out1 k)"
  proof (rule pass2_entries [OF _ p2])
    fix k out out'
    assume k: "k \<in> set c"
      and b: "evaluateNode rec ms nodes conns (set c) ?frz k True out = Inr out'"
    from k c obtain node where n: "findNode nodes k = Some node"
      using findNode_Some_iff by blast
    from evaluateNode_Some [OF b n] n
    show "\<exists>v. out' = out(k \<mapsto> v) \<and>
            (\<exists>node. findNode nodes k = Some node \<and>
               nodeOutput rec ms node
                 (inputValues conns (set c) ?frz ?frz k (n_inputCount node)) = Inr v)"
      by auto
  qed
  then have b: "\<forall>k\<in>set c. \<exists>v. r k = Some v \<and>
               (\<exists>node. findNode nodes k = Some node \<and>
                  nodeOutput rec ms node
                    (inputValues conns (set c) ?frz ?frz k (n_inputCount node)) = Inr v)"
    and f2: "\<And>k. k \<notin> set c \<Longrightarrow> r k = out1 k"
    by blast+
  from fn have ks: "k \<in> set s"
    using findNode_Some_iff s by blast
  show ?thesis
  proof (cases "k \<in> set c")
    case False
    with ks a fn obtain v where v: "out1 k = Some v"
      "nodeOutput rec ms node (inputValues conns (set c) seed out1 k (n_inputCount node)) = Inr v"
      by fastforce
    have "inputValues conns (set c) seed r k (n_inputCount node)
            = inputValues conns (set c) seed out1 k (n_inputCount node)"
      by (rule inputValues_agree) (simp_all add: f2)
    with v f2 [OF False] sd show ?thesis by simp
  next
    case True
    with b fn obtain v where v: "r k = Some v"
      "nodeOutput rec ms node (inputValues conns (set c) ?frz ?frz k (n_inputCount node)) = Inr v"
      by fastforce
    have "inputValues conns (set c) ?frz ?frz k (n_inputCount node)
            = inputValues conns (set c) seed r k (n_inputCount node)"
    proof (rule inputValues_agree)
      fix f assume "f \<in> set c"
      then show "?frz f = seed f" by (simp add: refreshFrozen_apply)
    next
      fix conn assume nc: "fromNodeId conn \<notin> set c"
      show "?frz (fromNodeId conn) = r (fromNodeId conn)"
      proof (cases "fromNodeId conn \<in> set s")
        case True
        with nc a obtain v' where "out1 (fromNodeId conn) = Some v'" by blast
        with True nc f2 [OF nc] show ?thesis by (simp add: refreshFrozen_apply)
      next
        case False
        with f1 [of "fromNodeId conn"] f2 [OF nc] show ?thesis
          by (simp add: refreshFrozen_apply)
      qed
    qed
    with v sd show ?thesis by simp
  qed
qed

text \<open>
  The evaluation sequence for pairwise distinct node identifiers: it holds every node
  identifier once, and a connection between two nodes outside the cycle set leads
  forward in it.
\<close>

lemma topoOrder_sequence:
  assumes d: "distinct (map n_id nodes)"
    and t: "topoOrder nodes connections = Inr (sortedIds, cycleNodeIds)"
  shows "distinct sortedIds \<and> mset sortedIds = mset (map n_id nodes) \<and>
         (\<forall>c\<in>set connections.
            fromNodeId c \<in> n_id ` set nodes \<and> toNodeId c \<in> n_id ` set nodes \<and>
            fromNodeId c \<notin> set cycleNodeIds \<and> toNodeId c \<notin> set cycleNodeIds \<longrightarrow>
            (\<exists>xs ys zs. sortedIds = xs @ fromNodeId c # ys @ toNodeId c # zs))"
proof -
  let ?ids = "n_id ` set nodes"
  from t obtain oe ie where e: "buildEdges nodes connections = Inr (oe, ie)"
    by (auto simp: topoOrder_def split: sum.splits)
  let ?deg = "initInDegree nodes ie"
  let ?K = "kahnLoop oe ?deg (initQueue nodes ?deg) []"
  have g: "edgeInv ?ids connections (oe, ie)"
    using e by (rule edgeInv_buildEdges)
  from kahnLoop_inv [OF g kahnInv_init [OF g d]] obtain deg' where
    inv: "kahnInv ?ids ie deg' [] ?K"
    by blast
  then have dK: "distinct ?K" and sK: "set ?K \<subseteq> ?ids" and pf: "predsFirst ie ?K"
    unfolding kahnInv_def by auto
  let ?C = "filter (\<lambda>k. k \<notin> set ?K) (map n_id nodes)"
  from t e have "collectCycle nodes (?K, []) = (sortedIds, cycleNodeIds)"
    by (simp add: topoOrder_def Let_def)
  with collectCycle_char [OF d, of ?K "[]"]
  have s: "sortedIds = ?K @ ?C" and c: "cycleNodeIds = ?C"
    by simp_all
  have ds: "distinct sortedIds"
    unfolding s using dK d by (auto simp: distinct_map)
  moreover have "set sortedIds = set (map n_id nodes)"
    unfolding s using sK by auto
  ultimately have m: "mset sortedIds = mset (map n_id nodes)"
    using d set_eq_iff_mset_eq_distinct by blast
  have o: "\<exists>xs ys zs. sortedIds = xs @ fromNodeId c # ys @ toNodeId c # zs"
    if cm: "c \<in> set connections"
      and fi: "fromNodeId c \<in> ?ids" and ti: "toNodeId c \<in> ?ids"
      and fc: "fromNodeId c \<notin> set cycleNodeIds" and tc: "toNodeId c \<notin> set cycleNodeIds" for c
  proof -
    from fi fc have fK: "fromNodeId c \<in> set ?K" unfolding c by auto
    from ti tc have tK: "toNodeId c \<in> set ?K" unfolding c by auto
    from g have "\<forall>p k. p \<in> set (succs ie k) \<longleftrightarrow>
        p \<in> ?ids \<and> k \<in> ?ids \<and> (\<exists>c\<in>set connections. fromNodeId c = p \<and> toNodeId c = k)"
      unfolding edgeInv_def snd_conv by (elim conjE)
    with cm fi ti have p: "fromNodeId c \<in> set (succs ie (toNodeId c))"
      by blast
    from tK obtain xs zs where k: "?K = xs @ toNodeId c # zs"
      by (meson split_list)
    with pf have "set (succs ie (toNodeId c)) \<subseteq> set xs"
      unfolding predsFirst_def by blast
    with p obtain xs1 xs2 where "xs = xs1 @ fromNodeId c # xs2"
      by (meson split_list subsetD)
    with k s have "sortedIds = xs1 @ fromNodeId c # xs2 @ toNodeId c # (zs @ ?C)"
      by simp
    then show ?thesis by blast
  qed
  show ?thesis
  proof (intro conjI ballI impI)
    show "distinct sortedIds" by (rule ds)
  next
    show "mset sortedIds = mset (map n_id nodes)" by (rule m)
  next
    fix c
    assume "c \<in> set connections"
      and "fromNodeId c \<in> ?ids \<and> toNodeId c \<in> ?ids \<and>
            fromNodeId c \<notin> set cycleNodeIds \<and> toNodeId c \<notin> set cycleNodeIds"
    then show "\<exists>xs ys zs. sortedIds = xs @ fromNodeId c # ys @ toNodeId c # zs"
      using o by simp
  qed
qed

lemma topoOrder_srcsBefore:
  assumes d: "distinct (map n_id nodes)"
    and t: "topoOrder nodes connections = Inr (s, c)"
  shows "srcsBefore connections (set c) s"
  unfolding srcsBefore_def
proof (intro allI impI ballI)
  fix ys k zs conn
  assume sp: "s = ys @ k # zs \<and> k \<notin> set c" and cm: "conn \<in> set connections"
    and e: "toNodeId conn = k \<and> fromNodeId conn \<notin> set c"
  from topoOrder_sequence [OF d t] have ds: "distinct s"
    and ord: "\<And>c'. c' \<in> set connections \<Longrightarrow>
            fromNodeId c' \<in> n_id ` set nodes \<Longrightarrow> toNodeId c' \<in> n_id ` set nodes \<Longrightarrow>
            fromNodeId c' \<notin> set c \<Longrightarrow> toNodeId c' \<notin> set c \<Longrightarrow>
            \<exists>xs ys zs. s = xs @ fromNodeId c' # ys @ toNodeId c' # zs"
    by blast+
  have ids: "set s = n_id ` set nodes"
    by (rule topoOrder_ids(1) [OF t])
  show "fromNodeId conn \<notin> set (k # zs)"
  proof (cases "fromNodeId conn \<in> n_id ` set nodes")
    case False
    with ids sp show ?thesis by auto
  next
    case True
    from sp ids have "toNodeId conn \<in> n_id ` set nodes"
      using e by auto
    from ord [OF cm True this] e sp obtain xs' ys' zs' where
      s': "s = xs' @ fromNodeId conn # ys' @ k # zs'"
      by auto
    then have "s = (xs' @ fromNodeId conn # ys') @ k # zs'" by simp
    with sp ds have "ys = xs' @ fromNodeId conn # ys'"
      by (metis append_Cons_eq_iff distinct.simps(2) distinct_append not_distinct_conv_prefix)
    with sp ds show ?thesis by auto
  qed
qed

lemma evaluateCircuit_fixpoint:
  assumes d: "distinct (map n_id nodes)"
    and e: "evaluateCircuit (Suc depth) nodes conns ms prev = Inr r"
    and fn: "findNode nodes k = Some node"
  shows "\<exists>s c seed v. topoOrder nodes conns = Inr (s, c) \<and> seedOutputs prev c = Inr seed \<and>
           r k = Some v \<and>
           nodeOutput (\<lambda>ns cs. evaluateCircuit depth ns cs ms None) ms node
             (inputValues conns (set c) seed r k (n_inputCount node)) = Inr v"
proof -
  from e obtain s c where t: "topoOrder nodes conns = Inr (s, c)"
    and rp: "runPasses (\<lambda>ns cs. evaluateCircuit depth ns cs ms None) nodes conns ms prev s c = Inr r"
    by (auto simp: evaluateBody_def split: sum.splits)
  from topoOrder_sequence [OF d t] have ds: "distinct s" by blast
  from runPasses_fixpoint [OF rp ds topoOrder_ids [OF t] topoOrder_srcsBefore [OF d t] fn] t
  show ?thesis by blast
qed

section \<open>The cycle probe and the evaluator on identifiers that name no inherited property\<close>

text \<open>
  \<^verbatim>\<open>wouldCreateCycle\<close> returns, and returns \<^verbatim>\<open>true\<close> exactly when the two identifiers are
  equal or the source of the candidate wire is reachable from its target along existing
  connections.
\<close>

lemma wouldCreateCycle_reachability:
  assumes "\<forall>c\<in>set connections. \<not> inheritedName (fromNodeId c) \<and> \<not> inheritedName (toNodeId c)"
    and "\<not> inheritedName toId"
  shows "wouldCreateCycle connections fromId toId
           = Inr (fromId = toId \<or> (toId, fromId) \<in> (edgeRel connections)\<^sup>*)"
proof (cases "fromId = toId")
  case True
  then show ?thesis by (simp add: wouldCreateCycle_def)
next
  case False
  from assms(1) have "\<forall>c\<in>set connections. \<not> inheritedName (fromNodeId c)" by simp
  from buildAdj_safe [OF this] obtain adj where
    a: "buildAdj connections = Inr adj"
    and l: "\<And>x. set (adjLookup adj x) = {y. (x, y) \<in> edgeRel connections}"
    by blast
  have "bfsLoop adj fromId {} [toId]
          = Inr (\<exists>x\<in>set [toId]. (x, fromId) \<in> (edgeRel connections)\<^sup>*)"
  proof (rule bfsLoop_correct)
    show "set (adjLookup adj x) = {y. (x, y) \<in> edgeRel connections}" for x
      by (rule l)
    show "\<not> inheritedName y" if "(x, y) \<in> edgeRel connections" for x y
      using that assms(1) by (auto simp: edgeRel_def)
  qed (use assms(2) in simp_all)
  with False a show ?thesis by (simp add: wouldCreateCycle_def)
qed

lemma wouldCreateCycle_acyclic:
  assumes "\<forall>c\<in>set connections. \<not> inheritedName (fromNodeId c) \<and> \<not> inheritedName (toNodeId c)"
    and "\<not> inheritedName toId"
    and "acyclic (insert (fromId, toId) (edgeRel connections))"
  shows "wouldCreateCycle connections fromId toId = Inr False"
proof -
  from assms(3) have "(toId, fromId) \<notin> (edgeRel connections)\<^sup>*"
    by (simp add: acyclic_insert)
  moreover from this have "fromId \<noteq> toId" by auto
  ultimately show ?thesis
    by (simp add: wouldCreateCycle_reachability [OF assms(1,2)])
qed

text \<open>On the wire from \<open>a\<close> to \<open>b\<close>: a wire back closes a cycle, a wire onward does not.\<close>

lemma chain_probe:
  "wouldCreateCycle chainConns ''b'' ''a'' = Inr True \<and>
   wouldCreateCycle chainConns ''b'' ''c'' = Inr False"
proof -
  have s: "\<forall>c\<in>set chainConns. \<not> inheritedName (fromNodeId c) \<and> \<not> inheritedName (toNodeId c)"
    by (simp add: chainConns_def wire_def inheritedName_def)
  have n: "\<not> inheritedName ''a''" "\<not> inheritedName ''c''"
    by (simp_all add: inheritedName_def)
  have e: "edgeRel chainConns = {(''a'', ''b'')}"
    by (simp add: edgeRel_def chainConns_def wire_def)
  have "(''a'', ''b'') \<in> (edgeRel chainConns)\<^sup>*"
    unfolding e by blast
  then have a: "wouldCreateCycle chainConns ''b'' ''a'' = Inr True"
    by (simp add: wouldCreateCycle_reachability [OF s n(1)])
  have "acyclic ({} :: (string \<times> string) set)"
    by (simp add: acyclic_def)
  then have "acyclic (insert (''b'', ''c'') (edgeRel chainConns))"
    unfolding e by (simp add: rtrancl_insert)
  then have "wouldCreateCycle chainConns ''b'' ''c'' = Inr False"
    by (rule wouldCreateCycle_acyclic [OF s n(2)])
  with a show ?thesis ..
qed

text \<open>
  When no module definition of the library reaches itself through MODULE-node
  references, the evaluator returns from some depth of the call stack on, and its
  result map has an entry for every node of the input node list.
\<close>

lemma evaluateCircuit_total:
  assumes "acyclic (moduleRefs modules)" and "\<forall>m\<in>set modules. safeModule m"
    and "safeCircuit nodes connections"
  shows "\<exists>D. \<forall>depth\<ge>D. \<forall>previousOutputs. \<exists>r.
           evaluateCircuit depth nodes connections modules previousOutputs = Inr r \<and>
           (\<forall>n\<in>set nodes. \<exists>v. r (n_id n) = Some v)"
proof -
  from evaluateCircuit_returns [OF assms] obtain D where
    D: "\<forall>d\<ge>D. \<forall>prev. \<exists>r. evaluateCircuit d nodes connections modules prev = Inr r"
    by blast
  have "\<exists>r. evaluateCircuit depth nodes connections modules previousOutputs = Inr r \<and>
           (\<forall>n\<in>set nodes. \<exists>v. r (n_id n) = Some v)" if "depth \<ge> D" for depth previousOutputs
  proof -
    from D that obtain r where
      r: "evaluateCircuit depth nodes connections modules previousOutputs = Inr r"
      by blast
    have "\<exists>v. r (n_id n) = Some v" if "n \<in> set nodes" for n
    proof -
      from that obtain node where "findNode nodes (n_id n) = Some node"
        using findNode_Some_iff by blast
      from evaluateCircuit_entry [OF r this] show ?thesis by blast
    qed
    with r show ?thesis by blast
  qed
  then show ?thesis by blast
qed

text \<open>On a circuit with two levels of module nesting.\<close>

lemma nested_total:
  "\<exists>D. \<forall>depth\<ge>D. \<forall>previousOutputs. \<exists>r.
     evaluateCircuit depth nestedNodes nestedConns [bufferModule, outerModule] previousOutputs = Inr r \<and>
     (\<forall>n\<in>set nestedNodes. \<exists>v. r (n_id n) = Some v)"
proof (rule evaluateCircuit_total [OF nested_acyclic])
  show "\<forall>m\<in>set [bufferModule, outerModule]. safeModule m"
    by (simp add: safeModule_def safeCircuit_def bufferModule_def outerModule_def moduleNode_def
        example_defs inheritedName_def)
  show "safeCircuit nestedNodes nestedConns"
    by (simp add: safeCircuit_def nestedNodes_def nestedConns_def moduleNode_def example_defs
        inheritedName_def)
qed

section \<open>A module definition that contains itself\<close>

text \<open>
  A module definition that holds an instance of itself exhausts the call stack, whatever
  its depth.
\<close>

lemma selfModule_internal:
  "evaluateCircuit d (internalNodes selfModule iv) (m_connections selfModule) [selfModule] None
     = Inl RangeError"
proof (induction d arbitrary: iv)
  case 0
  show ?case by simp
next
  case (Suc d)
  let ?rec = "\<lambda>ns cs. evaluateCircuit d ns cs [selfModule] None"
  let ?ns = "internalNodes selfModule iv" and ?cs = "m_connections selfModule"
  have t: "topoOrder ?ns ?cs = Inr ([''si'', ''sm'', ''so''], [])"
    by (simp add: selfModule_def moduleNode_def graph_defs module_defs example_defs)
  have f: "findModule [selfModule] (Some ''self'') = Some selfModule"
    by (simp add: findModule_def selfModule_def)
  have si: "\<exists>v. evaluateNode ?rec [selfModule] ?ns ?cs {} Map.empty ''si'' False out
             = Inr (out(''si'' \<mapsto> v))" for out
    by (auto simp: evaluateNode_def findNode_def nodeOutput_def selfModule_def moduleNode_def
        module_defs example_defs)
  have fn: "findNode ?ns ''sm'' = Some (moduleNode ''sm'' ''self'' 1 1)"
    by (simp add: findNode_def selfModule_def moduleNode_def module_defs example_defs)
  have sm: "evaluateNode ?rec [selfModule] ?ns ?cs {} Map.empty ''sm'' False out = Inl RangeError"
    for out
    unfolding evaluateNode_def fn
    by (simp add: nodeOutput_def moduleNode_def plainNode_def f Suc.IH)
  from si [of Map.empty] obtain v where
    "evaluateNode ?rec [selfModule] ?ns ?cs {} Map.empty ''si'' False Map.empty
       = Inr [''si'' \<mapsto> v]"
    by blast
  then show ?case
    by (simp add: evaluateBody_def t runPasses_def seedOutputs_def sm)
qed

lemma selfModule_exhausts:
  "evaluateCircuit d [moduleNode ''m'' ''self'' 1 1] [] [selfModule] previousOutputs = Inl RangeError"
proof (cases d)
  case 0
  then show ?thesis by simp
next
  case (Suc d')
  have f: "findModule [selfModule] (Some ''self'') = Some selfModule"
    by (simp add: findModule_def selfModule_def)
  have t: "topoOrder [moduleNode ''m'' ''self'' 1 1] [] = Inr ([''m''], [])"
    by (simp add: moduleNode_def graph_defs example_defs)
  have "seedOutputs previousOutputs [] = Inr Map.empty"
    by (cases previousOutputs) (simp_all add: seedOutputs_def)
  then show ?thesis
    unfolding Suc evaluateCircuit.simps evaluateBody_def t
    by (simp add: runPasses_def evaluateNode_def findNode_def nodeOutput_def moduleNode_def
          plainNode_def f selfModule_internal)
qed

section \<open>Claims\<close>





text \<open>
  Claim C2. A phase-2 call of \<^verbatim>\<open>evaluateNode\<close> does not read the result map it
  extends: its effect on any map \<open>outputs\<close> is to overlay what the same call writes
  starting from the empty map, which depends on the frozen snapshot and the node only
  (an error is thrown for every map or for none). Consequently phase 2 run over any
  reordering of the cycle nodes, from the same result map, returns the same result map,
  or throws in both orders (the first node to throw decides which error it is);
  \<open>resultOf\<close> is the result map of a run that returns.
\<close>

theorem C2_phase2_order_independent:
  "(\<forall>outputs. evaluateNode rec modules nodes connections cycleSet frozenOutputs nodeId True outputs =
      map_sum id (\<lambda>w. outputs ++ w)
        (evaluateNode rec modules nodes connections cycleSet frozenOutputs nodeId True Map.empty)) \<and>
   (mset ids = mset ids' \<longrightarrow>
      resultOf (pass2 (evaluateNode rec modules nodes connections cycleSet frozenOutputs) ids outputs0) =
      resultOf (pass2 (evaluateNode rec modules nodes connections cycleSet frozenOutputs) ids' outputs0))"
proof (intro conjI allI impI)
  fix outputs
  show "evaluateNode rec modules nodes connections cycleSet frozenOutputs nodeId True outputs =
      map_sum id (\<lambda>w. outputs ++ w)
        (evaluateNode rec modules nodes connections cycleSet frozenOutputs nodeId True Map.empty)"
    by (rule evaluateNode_cycle_overlay)
next
  assume m: "mset ids = mset ids'"
  let ?ev = "\<lambda>k b out. resultOf
               (evaluateNode rec modules nodes connections cycleSet frozenOutputs k b out)"
  have "fold (optStep ?ev) ids = fold (optStep ?ev) ids'"
    by (rule fold_multiset_equiv [OF _ m]) (rule optStep_commute)
  then show "resultOf (pass2 (evaluateNode rec modules nodes connections cycleSet frozenOutputs)
                 ids outputs0) =
             resultOf (pass2 (evaluateNode rec modules nodes connections cycleSet frozenOutputs)
                 ids' outputs0)"
    by (simp add: pass2_fold)
qed

theorem C2_phase2_order_independent_witness:
  "mset [''a'', ''b''] = mset [''b'', ''a''] \<and>
   resultOf (pass2 (evaluateNode (\<lambda>ns cs. Inl RangeError) [] ringNodes ringConns {''a'', ''b''}
     ringFrozen) [''a'', ''b''] Map.empty) =
   resultOf (pass2 (evaluateNode (\<lambda>ns cs. Inl RangeError) [] ringNodes ringConns {''a'', ''b''}
     ringFrozen) [''b'', ''a''] Map.empty) \<and>
   pass2 (evaluateNode (\<lambda>ns cs. Inl RangeError) [] ringNodes ringConns {''a'', ''b''} ringFrozen)
     [''b'', ''a''] Map.empty = Inr [''b'' \<mapsto> [False], ''a'' \<mapsto> [False]]"
proof -
  have m: "mset [''a'', ''b''] = mset [''b'', ''a'']"
    by simp
  have v: "pass2 (evaluateNode (\<lambda>ns cs. Inl RangeError) [] ringNodes ringConns {''a'', ''b''}
             ringFrozen) [''b'', ''a''] Map.empty = Inr [''b'' \<mapsto> [False], ''a'' \<mapsto> [False]]"
    by (simp add: ringNodes_def ringConns_def ringFrozen_def notGate_def eval_defs example_defs)
  from C2_phase2_order_independent
    [of "\<lambda>ns cs. Inl RangeError" "[]" ringNodes ringConns "{''a'', ''b''}" ringFrozen _
        "[''a'', ''b'']" "[''b'', ''a'']" Map.empty]
    m v
  show ?thesis by blast
qed

text \<open>
  Claim C3. A module definition lists in \<^verbatim>\<open>inputNodeIds\<close> nodes of its own that are input
  terminals and in \<^verbatim>\<open>outputNodeIds\<close> nodes of its own that are output terminals (the data
  model of section 3; the module editor of the repository builds both lists from the
  terminals among the module's nodes). For every such definition \<open>m\<close>, every MODULE node
  that resolves to it, every depth of the call stack and every external input vector,
  the output that the source computes for the node is the specification's expansion:
  the evaluator run standalone on the internal circuit with the input terminals
  overwritten by the flattened external inputs, the outputs read in \<^verbatim>\<open>outputNodeIds\<close>
  order; both throw the same error if the standalone run throws. In a circuit with
  pairwise distinct node identifiers, the entry that \<^verbatim>\<open>evaluateCircuit\<close> assigns such a node
  in its result map \<open>r\<close> is this expansion for the input vector that the node's wires
  carry: the entry of \<open>r\<close> for a source outside the cycle set, the seeded previous output
  for a source in the cycle set. When no module definition reaches itself and no
  identifier inside the library is the name of an inherited property, the expansion
  returns an output vector from some depth on.
\<close>

theorem C3_module_round_trip:
  assumes "namesInputTerminals m" and "namesOutputTerminals m"
    and "n_type node = MODULE" and "findModule modules (n_moduleId node) = Some m"
  shows "(\<forall>depth ext.
            nodeOutput (standalone depth modules) modules node ext = specModule depth modules m ext) \<and>
         (\<forall>depth nodes connections previousOutputs r k.
            distinct (map n_id nodes) \<and>
            evaluateCircuit (Suc depth) nodes connections modules previousOutputs = Inr r \<and>
            findNode nodes k = Some node \<longrightarrow>
            (\<exists>s c seed v. topoOrder nodes connections = Inr (s, c) \<and>
               seedOutputs previousOutputs c = Inr seed \<and> r k = Some v \<and>
               specModule depth modules m
                 (inputValues connections (set c) seed r k (n_inputCount node)) = Inr v)) \<and>
         (acyclic (moduleRefs modules) \<and> (\<forall>m'\<in>set modules. safeModule m') \<longrightarrow>
            (\<exists>D. \<forall>depth\<ge>D. \<forall>ext. \<exists>v. specModule depth modules m ext = Inr v))"
proof -
  have a: "nodeOutput (standalone depth modules) modules node ext = specModule depth modules m ext"
    for depth ext
    using assms(3,4) module_refines [OF assms(1,2), of depth modules ext]
    by (simp add: nodeOutput_def)
  have s: "(\<lambda>ns cs. evaluateCircuit depth ns cs modules None) = standalone depth modules" for depth
    by (intro ext) (simp add: standalone_def)
  have b: "\<exists>s c seed v. topoOrder nodes connections = Inr (s, c) \<and>
               seedOutputs previousOutputs c = Inr seed \<and> r k = Some v \<and>
               specModule depth modules m
                 (inputValues connections (set c) seed r k (n_inputCount node)) = Inr v"
    if d: "distinct (map n_id nodes)"
      and e: "evaluateCircuit (Suc depth) nodes connections modules previousOutputs = Inr r"
      and f: "findNode nodes k = Some node" for depth nodes connections previousOutputs r k
    using evaluateCircuit_fixpoint [OF d e f] unfolding s a .
  have c: "\<exists>D. \<forall>depth\<ge>D. \<forall>ext. \<exists>v. specModule depth modules m ext = Inr v"
    if ac: "acyclic (moduleRefs modules)" and sf: "\<forall>m'\<in>set modules. safeModule m'"
  proof -
    from assms(4) have "m \<in> set modules"
      by (rule findModule_in_set)
    from modules_return [OF ac sf this] obtain D where D: "returnsFrom modules m D"
      by blast
    have "\<exists>v. specModule depth modules m ext = Inr v" if "depth \<ge> D" for depth ext
    proof -
      from D that obtain r where
        "evaluateCircuit depth (internalNodes m ext) (m_connections m) modules None = Inr r"
        unfolding returnsFrom_def by blast
      then have "nodeOutput (standalone depth modules) modules node ext = Inr (moduleResult m r)"
        using assms(3,4) by (simp add: nodeOutput_def standalone_def)
      then show ?thesis
        unfolding a by blast
    qed
    then show ?thesis by blast
  qed
  from a b c show ?thesis by blast
qed

theorem C3_module_round_trip_witness:
  "namesInputTerminals roundTripModule \<and> namesOutputTerminals roundTripModule \<and>
   n_type (moduleNode ''m'' ''rt'' 1 1) = MODULE \<and>
   findModule [roundTripModule] (n_moduleId (moduleNode ''m'' ''rt'' 1 1)) = Some roundTripModule \<and>
   acyclic (moduleRefs [roundTripModule]) \<and> safeModule roundTripModule \<and>
   nodeOutput (standalone 1 [roundTripModule]) [roundTripModule] (moduleNode ''m'' ''rt'' 1 1) [True]
     = specModule 1 [roundTripModule] roundTripModule [True] \<and>
   specModule 1 [roundTripModule] roundTripModule [True] = Inr [True] \<and>
   specModule 1 [roundTripModule] roundTripModule [False] = Inr [False] \<and>
   outputAt (evaluateCircuit 2 roundTripNodes roundTripConns [roundTripModule] None) ''m''
     = Some [True]"
proof -
  have w: "namesInputTerminals roundTripModule"
    by (simp add: namesInputTerminals_def roundTripModule_def findNode_def example_defs
        isInputTerminal_def)
  have o: "namesOutputTerminals roundTripModule"
    by (simp add: namesOutputTerminals_def roundTripModule_def findNode_def example_defs
        isOutputTerminal_def)
  have t: "n_type (moduleNode ''m'' ''rt'' 1 1) = MODULE"
    by (simp add: moduleNode_def plainNode_def)
  have f: "findModule [roundTripModule] (n_moduleId (moduleNode ''m'' ''rt'' 1 1))
             = Some roundTripModule"
    by (simp add: findModule_def moduleNode_def plainNode_def roundTripModule_def)
  have "moduleRefs [roundTripModule] = {}"
    by (auto simp: moduleRefs_def refsOf_def roundTripModule_def example_defs)
  then have ac: "acyclic (moduleRefs [roundTripModule])"
    by (simp add: acyclic_def)
  have sm: "safeModule roundTripModule"
    by (simp add: safeModule_def safeCircuit_def roundTripModule_def example_defs inheritedName_def)
  have v: "specModule 1 [roundTripModule] roundTripModule [True] = Inr [True]"
    by (simp add: roundTripModule_def graph_defs eval_defs example_defs spec_defs)
  have v': "specModule 1 [roundTripModule] roundTripModule [False] = Inr [False]"
    by (simp add: roundTripModule_def graph_defs eval_defs example_defs spec_defs)
  have c: "outputAt (evaluateCircuit 2 roundTripNodes roundTripConns [roundTripModule] None) ''m''
     = Some [True]"
    by (simp add: numeral_2_eq_2 roundTripNodes_def roundTripConns_def roundTripModule_def
        moduleNode_def graph_defs eval_defs example_defs module_defs)
  note r = C3_module_round_trip [OF w o t f]
  from r have "nodeOutput (standalone 1 [roundTripModule]) [roundTripModule]
      (moduleNode ''m'' ''rt'' 1 1) [True] = specModule 1 [roundTripModule] roundTripModule [True]"
    by blast
  with w o t f ac sm v v' c show ?thesis
    by (intro conjI)
qed

text \<open>
  Claim C4, as stated, fails for OR: with pin 0 fed by an INPUT terminal holding \<open>True\<close>
  and pin 1 open, only one pin is connected, and the OR gate is assigned \<open>[True]\<close>.
\<close>

theorem C4_or_gate_counterexample:
  "findConn orExampleConns ''g'' 1 = None \<and>
   outputAt (evaluateCircuit 1 orExampleNodes orExampleConns [] None) ''g'' = Some [True]"
  by (simp add: orExampleNodes_def orExampleConns_def graph_defs eval_defs example_defs)

text \<open>
  Claim C4, amended. Let \<open>node\<close> be an AND node with fewer than two of its declared input
  pins connected, or an OR node that declares fewer than two input pins or has none of
  its pins connected; a pin \<open>i\<close> of node \<open>k\<close> is connected when some connection targets
  \<open>(k, i)\<close>. Every result map that the evaluator returns assigns the node \<open>[False]\<close>,
  whatever a connected pin carries. And the evaluator does return such a result map,
  from some depth of the call stack on and for every \<^verbatim>\<open>previousOutputs\<close>, when no module
  definition of the library reaches itself through MODULE nodes and no identifier of a
  node or of a connection endpoint, in the circuit or inside the library, is the name of
  an inherited property.
\<close>

theorem C4_arity:
  assumes "findNode nodes k = Some node"
    and "n_type node = AND \<and>
           card {i. i < n_inputCount node \<and> findConn connections k i \<noteq> None} < 2 \<or>
         n_type node = OR \<and>
           (n_inputCount node < 2 \<or> (\<forall>i<n_inputCount node. findConn connections k i = None))"
  shows "(\<forall>depth previousOutputs r.
            evaluateCircuit depth nodes connections modules previousOutputs = Inr r \<longrightarrow>
            r k = Some [False]) \<and>
         (acyclic (moduleRefs modules) \<and> (\<forall>m\<in>set modules. safeModule m) \<and>
          safeCircuit nodes connections \<longrightarrow>
            (\<exists>D. \<forall>depth\<ge>D. \<forall>previousOutputs. \<exists>r.
               evaluateCircuit depth nodes connections modules previousOutputs = Inr r \<and>
               r k = Some [False]))"
proof -
  have p: "r k = Some [False]"
    if e: "evaluateCircuit depth nodes connections modules previousOutputs = Inr r"
    for depth previousOutputs r
  proof -
    from evaluateCircuit_entry [OF e assms(1)] obtain s c frz src v where
      v: "r k = Some v"
      and n: "nodeOutput (\<lambda>ns cs. evaluateCircuit (depth - 1) ns cs modules None) modules node
               (inputValues connections (set c) frz src k (n_inputCount node)) = Inr v"
      by blast
    let ?iv = "inputValues connections (set c) frz src k (n_inputCount node)"
    let ?C = "{i. i < n_inputCount node \<and> findConn connections k i \<noteq> None}"
    from assms(2) consider
      (conj) "n_type node = AND" "card ?C < 2"
      | (disj) "n_type node = OR"
          "n_inputCount node < 2 \<or> (\<forall>i<n_inputCount node. findConn connections k i = None)"
      by blast
    then show ?thesis
    proof cases
      case conj
      note t = conj(1) and c = conj(2)
      have "\<not> (nthOrFalse ?iv 0 \<and> nthOrFalse ?iv 1)"
      proof
        assume "nthOrFalse ?iv 0 \<and> nthOrFalse ?iv 1"
        then have "{0, 1} \<subseteq> ?C"
          using nthOrFalse_inputValues_connected by blast
        moreover have "finite ?C" by simp
        ultimately have "card {0::nat, 1} \<le> card ?C"
          by (rule card_mono [rotated])
        with c show False by simp
      qed
      with n v t show ?thesis
        by (auto simp: nodeOutput_def)
    next
      case disj
      note t = disj(1) and c = disj(2)
      have "\<not> (2 \<le> length ?iv \<and> (nthOrFalse ?iv 0 \<or> nthOrFalse ?iv 1))"
        using c nthOrFalse_inputValues_connected
          [of connections "set c" frz src k "n_inputCount node"]
        by (metis length_inputValues not_le option.distinct(1))
      with n v t show ?thesis
        by (auto simp: nodeOutput_def)
    qed
  qed
  have q: "\<exists>D. \<forall>depth\<ge>D. \<forall>previousOutputs. \<exists>r.
               evaluateCircuit depth nodes connections modules previousOutputs = Inr r \<and>
               r k = Some [False]"
    if "acyclic (moduleRefs modules)" "\<forall>m\<in>set modules. safeModule m"
      "safeCircuit nodes connections"
  proof -
    from evaluateCircuit_returns [OF that] obtain D where
      D: "\<forall>d\<ge>D. \<forall>prev. \<exists>r. evaluateCircuit d nodes connections modules prev = Inr r"
      by blast
    have "\<exists>r. evaluateCircuit depth nodes connections modules previousOutputs = Inr r \<and>
               r k = Some [False]" if "depth \<ge> D" for depth previousOutputs
    proof -
      from D that obtain r where
        "evaluateCircuit depth nodes connections modules previousOutputs = Inr r"
        by blast
      with p [OF this] show ?thesis by blast
    qed
    then show ?thesis by blast
  qed
  from p q show ?thesis by blast
qed

theorem C4_arity_witness:
  "findNode andExampleNodes ''g'' = Some (plainNode ''g'' AND 2 1) \<and>
   n_type (plainNode ''g'' AND 2 1) = AND \<and>
   card {i. i < n_inputCount (plainNode ''g'' AND 2 1) \<and> findConn orExampleConns ''g'' i \<noteq> None} < 2 \<and>
   acyclic (moduleRefs []) \<and> safeCircuit andExampleNodes orExampleConns \<and>
   evaluateCircuit 1 andExampleNodes orExampleConns [] None
     = Inr [''i'' \<mapsto> [True], ''g'' \<mapsto> [False]] \<and>
   [''i'' \<mapsto> [True], ''g'' \<mapsto> [False]] ''g'' = Some [False] \<and>
   (\<exists>D. \<exists>r. evaluateCircuit D andExampleNodes orExampleConns [] None = Inr r \<and>
      r ''g'' = Some [False])"
proof -
  have e: "evaluateCircuit 1 andExampleNodes orExampleConns [] None
     = Inr [''i'' \<mapsto> [True], ''g'' \<mapsto> [False]]"
    by (simp add: andExampleNodes_def orExampleConns_def graph_defs eval_defs example_defs)
  have f: "findNode andExampleNodes ''g'' = Some (plainNode ''g'' AND 2 1)"
    by (simp add: andExampleNodes_def findNode_def example_defs)
  have "{i. i < n_inputCount (plainNode ''g'' AND 2 1) \<and> findConn orExampleConns ''g'' i \<noteq> None} = {0}"
    by (auto simp: orExampleConns_def findConn_def example_defs less_Suc_eq numeral_2_eq_2)
  then have c: "card {i. i < n_inputCount (plainNode ''g'' AND 2 1) \<and> findConn orExampleConns ''g'' i \<noteq> None} < 2"
    by simp
  have t: "n_type (plainNode ''g'' AND 2 1) = AND"
    by (simp add: plainNode_def)
  have ac: "acyclic (moduleRefs [])"
    by (simp add: moduleRefs_def acyclic_def)
  have sf: "safeCircuit andExampleNodes orExampleConns"
    by (simp add: safeCircuit_def andExampleNodes_def orExampleConns_def example_defs
        inheritedName_def)
  have h: "n_type (plainNode ''g'' AND 2 1) = AND \<and>
             card {i. i < n_inputCount (plainNode ''g'' AND 2 1) \<and>
                      findConn orExampleConns ''g'' i \<noteq> None} < 2 \<or>
           n_type (plainNode ''g'' AND 2 1) = OR \<and>
             (n_inputCount (plainNode ''g'' AND 2 1) < 2 \<or>
              (\<forall>i<n_inputCount (plainNode ''g'' AND 2 1). findConn orExampleConns ''g'' i = None))"
    using t c by blast
  note r = C4_arity [OF f h, of "[]"]
  from r e have v: "[''i'' \<mapsto> [True], ''g'' \<mapsto> [False]] ''g'' = Some [False]"
    by blast
  from r ac sf obtain D where "\<forall>depth\<ge>D. \<forall>previousOutputs. \<exists>r.
      evaluateCircuit depth andExampleNodes orExampleConns [] previousOutputs = Inr r \<and>
      r ''g'' = Some [False]"
    by auto
  then have x: "\<exists>D. \<exists>r. evaluateCircuit D andExampleNodes orExampleConns [] None = Inr r \<and>
      r ''g'' = Some [False]"
    by blast
  from f t c ac sf e v x show ?thesis
    by (intro conjI)
qed

text \<open>
  Claim C5, as stated, fails: a NOT gate without incoming connection reads \<open>False\<close> on
  its input pin and so is assigned \<open>[True]\<close>, not \<open>[False]\<close>.
\<close>

theorem C5_not_gate_counterexample:
  "outputAt (evaluateCircuit 1 [plainNode ''n'' NOT 1 1] [] [] None) ''n'' = Some [True]"
  by (simp add: graph_defs eval_defs example_defs)

text \<open>
  Claim C5, amended. Let \<open>node\<close>, the node that the identifier \<open>k\<close> denotes (the first of
  the list with that identifier), be of kind AND, OR, NOT, OUTPUT or LED and let no
  connection target it. Every result map that the evaluator returns assigns the node
  \<open>[True]\<close> if it is a NOT gate and \<open>[False]\<close> otherwise. And the evaluator does return such
  a result map, from some depth of the call stack on and for every \<^verbatim>\<open>previousOutputs\<close>,
  when no module definition of the library reaches itself through MODULE nodes and no
  identifier of a node or of a connection endpoint, in the circuit or inside the
  library, is the name of an inherited property.
\<close>

theorem C5_unconnected_gates:
  assumes "findNode nodes k = Some node"
    and "\<forall>c\<in>set connections. toNodeId c \<noteq> k"
    and "n_type node \<in> {AND, OR, NOT, OUTPUT, LED}"
  shows "(\<forall>depth previousOutputs r.
            evaluateCircuit depth nodes connections modules previousOutputs = Inr r \<longrightarrow>
            r k = Some (if n_type node = NOT then [True] else [False])) \<and>
         (acyclic (moduleRefs modules) \<and> (\<forall>m\<in>set modules. safeModule m) \<and>
          safeCircuit nodes connections \<longrightarrow>
            (\<exists>D. \<forall>depth\<ge>D. \<forall>previousOutputs. \<exists>r.
               evaluateCircuit depth nodes connections modules previousOutputs = Inr r \<and>
               r k = Some (if n_type node = NOT then [True] else [False])))"
proof -
  have p: "r k = Some (if n_type node = NOT then [True] else [False])"
    if e: "evaluateCircuit depth nodes connections modules previousOutputs = Inr r"
    for depth previousOutputs r
  proof -
    from evaluateCircuit_entry [OF e assms(1)] obtain s c frz src v where
      v: "r k = Some v"
      and n: "nodeOutput (\<lambda>ns cs. evaluateCircuit (depth - 1) ns cs modules None) modules node
               (inputValues connections (set c) frz src k (n_inputCount node)) = Inr v"
      by blast
    let ?iv = "inputValues connections (set c) frz src k (n_inputCount node)"
    have f: "nthOrFalse ?iv i = False" for i
      by (rule inputValues_unconnected) (rule findConn_None_if_no_target [OF assms(2)])
    from n v assms(3) show ?thesis
      by (auto simp: nodeOutput_def f)
  qed
  have q: "\<exists>D. \<forall>depth\<ge>D. \<forall>previousOutputs. \<exists>r.
               evaluateCircuit depth nodes connections modules previousOutputs = Inr r \<and>
               r k = Some (if n_type node = NOT then [True] else [False])"
    if "acyclic (moduleRefs modules)" "\<forall>m\<in>set modules. safeModule m"
      "safeCircuit nodes connections"
  proof -
    from evaluateCircuit_returns [OF that] obtain D where
      D: "\<forall>d\<ge>D. \<forall>prev. \<exists>r. evaluateCircuit d nodes connections modules prev = Inr r"
      by blast
    have "\<exists>r. evaluateCircuit depth nodes connections modules previousOutputs = Inr r \<and>
               r k = Some (if n_type node = NOT then [True] else [False])"
      if "depth \<ge> D" for depth previousOutputs
    proof -
      from D that obtain r where
        "evaluateCircuit depth nodes connections modules previousOutputs = Inr r"
        by blast
      with p [OF this] show ?thesis by blast
    qed
    then show ?thesis by blast
  qed
  from p q show ?thesis by blast
qed

theorem C5_unconnected_gates_witness:
  "findNode unconnectedExample ''g'' = Some (plainNode ''g'' AND 2 1) \<and>
   n_type (plainNode ''g'' AND 2 1) = AND \<and>
   findNode unconnectedExample ''n'' = Some (plainNode ''n'' NOT 1 1) \<and>
   n_type (plainNode ''n'' NOT 1 1) = NOT \<and>
   acyclic (moduleRefs []) \<and> safeCircuit unconnectedExample [] \<and>
   evaluateCircuit 1 unconnectedExample [] [] None
     = Inr [''g'' \<mapsto> [False], ''n'' \<mapsto> [True], ''l'' \<mapsto> [False]] \<and>
   [''g'' \<mapsto> [False], ''n'' \<mapsto> [True], ''l'' \<mapsto> [False]] ''g'' = Some [False] \<and>
   [''g'' \<mapsto> [False], ''n'' \<mapsto> [True], ''l'' \<mapsto> [False]] ''n'' = Some [True] \<and>
   (\<exists>D. \<exists>r. evaluateCircuit D unconnectedExample [] [] None = Inr r \<and> r ''n'' = Some [True])"
proof -
  have e: "evaluateCircuit 1 unconnectedExample [] [] None
     = Inr [''g'' \<mapsto> [False], ''n'' \<mapsto> [True], ''l'' \<mapsto> [False]]"
    by (simp add: unconnectedExample_def graph_defs eval_defs example_defs)
  have f: "findNode unconnectedExample ''g'' = Some (plainNode ''g'' AND 2 1)"
    by (simp add: unconnectedExample_def findNode_def plainNode_def)
  have f': "findNode unconnectedExample ''n'' = Some (plainNode ''n'' NOT 1 1)"
    by (simp add: unconnectedExample_def findNode_def plainNode_def)
  have c: "\<forall>c\<in>set ([] :: Connection list). toNodeId c \<noteq> x" for x
    by simp
  have t: "n_type (plainNode ''g'' AND 2 1) = AND"
    by (simp add: plainNode_def)
  have t': "n_type (plainNode ''n'' NOT 1 1) = NOT"
    by (simp add: plainNode_def)
  have ac: "acyclic (moduleRefs [])"
    by (simp add: moduleRefs_def acyclic_def)
  have sf: "safeCircuit unconnectedExample []"
    by (simp add: safeCircuit_def unconnectedExample_def example_defs inheritedName_def)
  have k: "n_type (plainNode ''g'' AND 2 1) \<in> {AND, OR, NOT, OUTPUT, LED}"
    "n_type (plainNode ''n'' NOT 1 1) \<in> {AND, OR, NOT, OUTPUT, LED}"
    by (simp_all add: plainNode_def)
  note g = C5_unconnected_gates [OF f c k(1), of "[]"]
  note n = C5_unconnected_gates [OF f' c k(2), of "[]"]
  from g have "\<forall>depth previousOutputs r.
      evaluateCircuit depth unconnectedExample [] [] previousOutputs = Inr r \<longrightarrow>
      r ''g'' = Some [False]"
    by (simp add: plainNode_def)
  with e have vg: "[''g'' \<mapsto> [False], ''n'' \<mapsto> [True], ''l'' \<mapsto> [False]] ''g'' = Some [False]"
    by blast
  from n have "\<forall>depth previousOutputs r.
      evaluateCircuit depth unconnectedExample [] [] previousOutputs = Inr r \<longrightarrow>
      r ''n'' = Some [True]"
    by (simp add: plainNode_def)
  with e have vn: "[''g'' \<mapsto> [False], ''n'' \<mapsto> [True], ''l'' \<mapsto> [False]] ''n'' = Some [True]"
    by blast
  from n ac sf obtain D where "\<forall>depth\<ge>D. \<forall>previousOutputs. \<exists>r.
      evaluateCircuit depth unconnectedExample [] [] previousOutputs = Inr r \<and>
      r ''n'' = Some [True]"
    by (auto simp: plainNode_def)
  then have x: "\<exists>D. \<exists>r. evaluateCircuit D unconnectedExample [] [] None = Inr r \<and>
      r ''n'' = Some [True]"
    by blast
  from f t f' t' ac sf e vg vn x show ?thesis
    by (intro conjI)
qed

text \<open>
  Claim C6. When the node identifiers are pairwise distinct, every evaluation sequence
  that the sequencer builds holds every node identifier exactly once, and for every
  connection between two nodes neither of which is in the cycle set, the source node
  occurs before the target node in the sequence. The sequencer builds a sequence at
  least when no connection endpoint is the name of an inherited property.
\<close>

theorem C6_evaluation_sequence:
  assumes d: "distinct (map n_id nodes)"
  shows "(\<forall>sortedIds cycleNodeIds.
            topoOrder nodes connections = Inr (sortedIds, cycleNodeIds) \<longrightarrow>
            mset sortedIds = mset (map n_id nodes) \<and>
            (\<forall>c\<in>set connections.
               fromNodeId c \<in> n_id ` set nodes \<and> toNodeId c \<in> n_id ` set nodes \<and>
               fromNodeId c \<notin> set cycleNodeIds \<and> toNodeId c \<notin> set cycleNodeIds \<longrightarrow>
               (\<exists>xs ys zs. sortedIds = xs @ fromNodeId c # ys @ toNodeId c # zs))) \<and>
         ((\<forall>c\<in>set connections. \<not> inheritedName (fromNodeId c) \<and> \<not> inheritedName (toNodeId c)) \<longrightarrow>
            (\<exists>sortedIds cycleNodeIds. topoOrder nodes connections = Inr (sortedIds, cycleNodeIds)))"
proof (rule conjI; intro allI impI)
  fix sortedIds cycleNodeIds
  assume "topoOrder nodes connections = Inr (sortedIds, cycleNodeIds)"
  from topoOrder_sequence [OF d this]
  show "mset sortedIds = mset (map n_id nodes) \<and>
            (\<forall>c\<in>set connections.
               fromNodeId c \<in> n_id ` set nodes \<and> toNodeId c \<in> n_id ` set nodes \<and>
               fromNodeId c \<notin> set cycleNodeIds \<and> toNodeId c \<notin> set cycleNodeIds \<longrightarrow>
               (\<exists>xs ys zs. sortedIds = xs @ fromNodeId c # ys @ toNodeId c # zs))"
    by (rule conjunct2)
next
  assume "\<forall>c\<in>set connections. \<not> inheritedName (fromNodeId c) \<and> \<not> inheritedName (toNodeId c)"
  then show "\<exists>sortedIds cycleNodeIds. topoOrder nodes connections = Inr (sortedIds, cycleNodeIds)"
    by (rule topoOrder_returns)
qed

theorem C6_evaluation_sequence_witness:
  "distinct (map n_id mixedNodes) \<and>
   topoOrder mixedNodes mixedConns = Inr ([''i'', ''o'', ''n''], [''n'']) \<and>
   mset [''i'', ''o'', ''n''] = mset (map n_id mixedNodes) \<and>
   (\<exists>xs ys zs. [''i'', ''o'', ''n''] = xs @ ''i'' # ys @ ''o'' # zs)"
proof -
  have d: "distinct (map n_id mixedNodes)"
    by (simp add: mixedNodes_def notGate_def example_defs)
  have t: "topoOrder mixedNodes mixedConns = Inr ([''i'', ''o'', ''n''], [''n''])"
    by (simp add: mixedNodes_def mixedConns_def notGate_def selfWire_def graph_defs example_defs)
  have c: "wire ''w1'' ''i'' 0 ''o'' 0 \<in> set mixedConns"
    by (simp add: mixedConns_def)
  from C6_evaluation_sequence [OF d, of mixedConns] t
  have r: "mset [''i'', ''o'', ''n''] = mset (map n_id mixedNodes) \<and>
         (\<forall>c\<in>set mixedConns.
            fromNodeId c \<in> n_id ` set mixedNodes \<and> toNodeId c \<in> n_id ` set mixedNodes \<and>
            fromNodeId c \<notin> set [''n''] \<and> toNodeId c \<notin> set [''n''] \<longrightarrow>
            (\<exists>xs ys zs. [''i'', ''o'', ''n''] = xs @ fromNodeId c # ys @ toNodeId c # zs))"
    by blast
  from r have m: "mset [''i'', ''o'', ''n''] = mset (map n_id mixedNodes)"
    by (rule conjunct1)
  have "fromNodeId (wire ''w1'' ''i'' 0 ''o'' 0) \<in> n_id ` set mixedNodes \<and>
        toNodeId (wire ''w1'' ''i'' 0 ''o'' 0) \<in> n_id ` set mixedNodes \<and>
        fromNodeId (wire ''w1'' ''i'' 0 ''o'' 0) \<notin> set [''n''] \<and>
        toNodeId (wire ''w1'' ''i'' 0 ''o'' 0) \<notin> set [''n'']"
    by (simp add: mixedNodes_def notGate_def example_defs)
  with r c have "\<exists>xs ys zs. [''i'', ''o'', ''n''] =
      xs @ fromNodeId (wire ''w1'' ''i'' 0 ''o'' 0) # ys @ toNodeId (wire ''w1'' ''i'' 0 ''o'' 0) # zs"
    by blast
  then have "\<exists>xs ys zs. [''i'', ''o'', ''n''] = xs @ ''i'' # ys @ ''o'' # zs"
    by (simp add: wire_def)
  with d t m show ?thesis by (intro conjI)
qed

text \<open>
  Claim C7, at a failing input. With no connection at all, a candidate wire from \<open>a\<close> to
  a node whose identifier is \<open>constructor\<close> leaves the connection graph acyclic, so that
  the claim has \<^verbatim>\<open>wouldCreateCycle\<close> return \<^verbatim>\<open>false\<close>, as it does for a target named \<open>b\<close>.
  But for the target \<open>constructor\<close> the call throws: line 275 reads \<^verbatim>\<open>adj[current]\<close>, finds
  the inherited property of that name in place of a missing entry, and iterates over
  it. It throws as well, at line 266, when an existing connection starts at such an
  identifier.
\<close>

theorem C7_inherited_identifier_throws:
  "wouldCreateCycle [] ''a'' ''constructor'' = Inl TypeError \<and>
   acyclic (insert (''a'', ''constructor'') (edgeRel [])) \<and>
   wouldCreateCycle [] ''a'' ''b'' = Inr False \<and>
   wouldCreateCycle [wire ''w'' ''constructor'' 0 ''b'' 0] ''a'' ''c'' = Inl TypeError"
proof (intro conjI)
  show "wouldCreateCycle [] ''a'' ''constructor'' = Inl TypeError"
    by (simp add: wouldCreateCycle_def buildAdj_def inheritedName_def)
  have "acyclic ({} :: (string \<times> string) set)"
    by (simp add: acyclic_def)
  then show "acyclic (insert (''a'', ''constructor'') (edgeRel []))"
    by (simp add: edgeRel_def acyclic_insert)
  show "wouldCreateCycle [] ''a'' ''b'' = Inr False"
    by (simp add: wouldCreateCycle_def buildAdj_def inheritedName_def adjLookup_def)
  show "wouldCreateCycle [wire ''w'' ''constructor'' 0 ''b'' 0] ''a'' ''c'' = Inl TypeError"
    by (simp add: wouldCreateCycle_def buildAdj_def adjPush_def inheritedName_def wire_def)
qed

text \<open>
  Claim C8, at a failing input. The circuit INPUT \<open>a\<close> to both pins of AND \<open>g\<close>, \<open>g\<close> to
  OUTPUT \<open>o\<close> is acyclic, and the sequencer of \<^verbatim>\<open>evaluateCircuit\<close> finds no cycle node in
  it; \<^verbatim>\<open>detectCycleConnections\<close> nevertheless reports the wire from \<open>g\<close> to \<open>o\<close>: it
  counts two incoming connections for \<open>g\<close> but decrements once per distinct successor.
\<close>

theorem C8_fan_in_flagged:
  "detectCycleConnections fanInNodes fanInConns = Inr [''w3''] \<and>
   topoOrder fanInNodes fanInConns = Inr ([''a'', ''g'', ''o''], [])"
  by (simp add: detectCycleConnections_def detectInit_def detectAddConn_def jsKeyOrder_def
        fanInNodes_def fanInConns_def graph_defs example_defs)

text \<open>
  Claim C9, at a failing input. The circuit is one OUTPUT terminal \<open>o\<close> and a wire to it
  from the identifier \<open>constructor\<close>, which no node has; the module library is empty, so
  no module definition reaches itself. The guard of line 19 is meant to skip a wire
  with a missing endpoint, and does so for the identifier \<open>x\<close>: the evaluator returns the
  result map with \<open>[False]\<close> for \<open>o\<close>. For \<open>constructor\<close> the guard reads the inherited
  property of that name, line 20 calls \<^verbatim>\<open>add\<close> on it, and the evaluator throws, at every
  depth of the call stack.
\<close>

theorem C9_inherited_identifier_throws:
  "evaluateCircuit (Suc d) danglingNodes (danglingConns ''constructor'') [] None = Inl TypeError \<and>
   acyclic (moduleRefs []) \<and>
   evaluateCircuit (Suc d) danglingNodes (danglingConns ''x'') [] None = Inr [''o'' \<mapsto> [False]]"
proof (intro conjI)
  show "evaluateCircuit (Suc d) danglingNodes (danglingConns ''constructor'') [] None
          = Inl TypeError"
    by (simp add: danglingNodes_def danglingConns_def evaluateBody_def graph_defs example_defs)
  show "acyclic (moduleRefs [])"
    by (simp add: moduleRefs_def acyclic_def)
  show "evaluateCircuit (Suc d) danglingNodes (danglingConns ''x'') [] None
          = Inr [''o'' \<mapsto> [False]]"
    by (simp add: danglingNodes_def danglingConns_def graph_defs eval_defs example_defs)
qed

text \<open>
  Claim C10. When several connections target the same pin \<open>i\<close> of the same node, the
  value read for that pin is the one delivered by the earliest of them in the
  connection list: it is read from the source pin of that connection, in the frozen
  snapshot if the source is a cycle node and in the pass's source map otherwise.
\<close>

theorem C10_first_connection_wins:
  assumes "connections = before @ conn # after"
    and "toNodeId conn = nodeId" and "toPinIndex conn = i"
    and "\<forall>c\<in>set before. \<not> (toNodeId c = nodeId \<and> toPinIndex c = i)"
    and "i < inputCount"
  shows "inputValues connections cycleSet frozenOutputs source nodeId inputCount ! i =
           readPin (if fromNodeId conn \<in> cycleSet then frozenOutputs else source)
             (fromNodeId conn) (fromPinIndex conn)"
proof -
  have "findConn connections nodeId i = Some conn"
    using assms(1-4) unfolding findConn_def
    by (induction before arbitrary: connections) auto
  with assms(5) show ?thesis
    by (simp add: inputValues_def)
qed

theorem C10_first_connection_wins_witness:
  "doubleWireConns = [] @ wire ''w1'' ''p'' 0 ''o'' 0 # [wire ''w2'' ''q'' 0 ''o'' 0] \<and>
   toNodeId (wire ''w2'' ''q'' 0 ''o'' 0) = ''o'' \<and> toPinIndex (wire ''w2'' ''q'' 0 ''o'' 0) = 0 \<and>
   inputValues doubleWireConns {} Map.empty [''p'' \<mapsto> [True], ''q'' \<mapsto> [False]] ''o'' 1 ! 0 = True \<and>
   outputAt (evaluateCircuit 1 doubleWireNodes doubleWireConns [] None) ''o'' = Some [True]"
proof -
  have a: "doubleWireConns = [] @ wire ''w1'' ''p'' 0 ''o'' 0 # [wire ''w2'' ''q'' 0 ''o'' 0]"
    by (simp add: doubleWireConns_def)
  have b: "toNodeId (wire ''w1'' ''p'' 0 ''o'' 0) = ''o''" "toPinIndex (wire ''w1'' ''p'' 0 ''o'' 0) = 0"
    by (simp_all add: wire_def)
  have c: "\<forall>c\<in>set []. \<not> (toNodeId c = ''o'' \<and> toPinIndex c = 0)"
    by simp
  have d: "(0::nat) < 1" by simp
  have e: "outputAt (evaluateCircuit 1 doubleWireNodes doubleWireConns [] None) ''o'' = Some [True]"
    by (simp add: doubleWireNodes_def doubleWireConns_def graph_defs eval_defs example_defs)
  from C10_first_connection_wins [OF a b c d, of "{}" Map.empty "[''p'' \<mapsto> [True], ''q'' \<mapsto> [False]]"]
  have "inputValues doubleWireConns {} Map.empty [''p'' \<mapsto> [True], ''q'' \<mapsto> [False]] ''o'' 1 ! 0 = True"
    by (simp add: wire_def readPin_def nthOrFalse_def)
  with a e show ?thesis
    by (simp add: wire_def)
qed

end
